theory Spec2Isabelle
  imports Main "HOL-Library.Word" "HOL-Library.Multiset" "HOL-Library.AList"
begin

section \<open>Data model of the snapshot counting core\<close>

text \<open>
  Pointers are addresses (\<open>addr\<close>); a C pointer that may be \<open>NULL\<close> is an
  \<open>addr option\<close> with \<open>None\<close> for \<open>NULL\<close>.  Every structure that the code
  allocates with \<open>calloc\<close>, \<open>posix_memalign\<close> or \<open>new\<close> lives in a store of its
  own type, a partial map from addresses to values: an address outside the domain of
  its store is not allocated, and dereferencing it is an invalid access, which the
  operations below return as \<open>None\<close>.
\<close>

text \<open>\<open>jlong\<close> and \<open>jint\<close> are 64 and 32 bit words, read as signed with \<open>sint\<close>;
  \<open>- 1\<close> is the word of all ones.\<close>

type_synonym addr = nat
type_synonym jlong = "64 word"
type_synonym jint = "32 word"

text \<open>\<open>TObjectCounter\<close>: instance count and total size of one class.\<close>

record TObjectCounter =
  count_oc :: jlong
  total_size :: jlong

text \<open>\<open>TObjectData\<close>: the class record.  \<open>TOopType\<close> is an enumeration declared
  outside the sources at hand and is kept as its number.\<close>

record TObjectData =
  tag :: jlong
  classNameLen :: jlong
  className :: string
  klassOop :: "addr option"
  oldTotalSize :: jlong
  oopType :: nat
  clsLoaderId :: jlong
  clsLoaderTag :: jlong
  isRemoved :: bool
  instanceSize :: jlong

text \<open>\<open>TChildClassCounter\<close>: one node of the intrusive child list.\<close>

record TChildClassCounter =
  counter :: "addr option"
  objData :: "addr option"
  "next" :: "addr option"
  callCount :: "32 word"

text \<open>\<open>TClassCounter\<close>: the counter of a class, the head of its child list and the
  cached offset table.  The field \<open>counter\<close> of the source is \<open>root_counter\<close> here,
  since the child node has a field of the same name.  The offset table itself
  (\<open>TOopMapBlock\<close>) is declared outside the sources at hand: only the pointer to it
  is modelled.\<close>

record TClassCounter =
  root_counter :: "addr option"
  child :: "addr option"
  spinlock :: int
  offsets :: "addr option"
  offsetCount :: "32 word"

text \<open>\<open>TSnapShotFileHeader\<close>; the field \<open>size\<close> of the source is \<open>size_hdr\<close>.\<close>

record TSnapShotFileHeader =
  magicNumber :: "8 word"
  byteOrderMark :: "8 word"
  snapShotTime :: jlong
  size_hdr :: jlong
  cause :: jint
  gcCauseLen :: jlong
  gcCause :: "char list"
  FGCCount :: jlong
  YGCCount :: jlong
  gcWorktime :: jlong
  newAreaSize :: jlong
  oldAreaSize :: jlong
  totalHeapSize :: jlong
  metaspaceUsage :: jlong
  metaspaceCapacity :: jlong

text \<open>The stores of the structures that snapshot containers point to.\<close>

record heap =
  classCounters :: "addr \<rightharpoonup> TClassCounter"
  childCounters :: "addr \<rightharpoonup> TChildClassCounter"
  objCounters :: "addr \<rightharpoonup> TObjectCounter"
  objDatas :: "addr \<rightharpoonup> TObjectData"

text \<open>\<open>TSnapShotContainer\<close>: the member \<open>_header\<close> is \<open>header\<close>; \<open>counterMap\<close> is an
  association list from class records to class counters, in the order in which the
  loops over the map visit it.  A stored counter pointer may be \<open>NULL\<close>, which the
  loops of the source check for.\<close>

record TSnapShotContainer =
  header :: TSnapShotFileHeader
  counterMap :: "(addr option \<times> addr option) list"
  isCleared :: bool

section \<open>Clearing a container\<close>

definition zero_counter :: TObjectCounter where
  "zero_counter = \<lparr>count_oc = 0, total_size = 0\<rparr>"

text \<open>\<open>clearObjectCounter\<close> writes both words of the counter it is given.\<close>

definition clearObjectCounter :: "heap \<Rightarrow> addr option \<Rightarrow> heap option" where
  "clearObjectCounter h ctr =
     (case ctr of
        None \<Rightarrow> None
      | Some a \<Rightarrow>
          (case objCounters h a of
             None \<Rightarrow> None
           | Some oc \<Rightarrow>
               Some (h\<lparr>objCounters := (objCounters h)(a \<mapsto> oc\<lparr>count_oc := 0, total_size := 0\<rparr>)\<rparr>)))"

text \<open>The loop of \<open>clearChildClassCounters\<close> over the child list.  It follows the
  \<open>next\<close> pointers until \<open>NULL\<close>; on a cyclic list it does not return.\<close>

partial_function (option) clearChildLoop :: "heap \<Rightarrow> addr option \<Rightarrow> heap option" where
  "clearChildLoop h child_counter =
     (case child_counter of
        None \<Rightarrow> Some h
      | Some a \<Rightarrow>
          (case childCounters h a of
             None \<Rightarrow> None
           | Some c \<Rightarrow>
               (case clearObjectCounter h (counter c) of
                  None \<Rightarrow> None
                | Some h' \<Rightarrow> clearChildLoop h' (next c))))"

definition clearChildClassCounters :: "heap \<Rightarrow> addr option \<Rightarrow> heap option" where
  "clearChildClassCounters h ctr =
     (case ctr of
        None \<Rightarrow> None
      | Some p \<Rightarrow>
          (case classCounters h p of
             None \<Rightarrow> None
           | Some cc \<Rightarrow>
               (case clearChildLoop h (child cc) of
                  None \<Rightarrow> None
                | Some h1 \<Rightarrow> clearObjectCounter h1 (root_counter cc))))"

text \<open>The loop of \<open>clear\<close> over \<open>counterMap\<close>: a \<open>NULL\<close> entry is skipped; otherwise
  the offset cache is released and reset, and the counters are zeroed.\<close>

fun clear_loop :: "(addr option \<times> addr option) list \<Rightarrow> heap \<Rightarrow> heap option" where
  "clear_loop [] h = Some h"
| "clear_loop ((k, clsCounter) # it) h =
     (case clsCounter of
        None \<Rightarrow> clear_loop it h
      | Some p \<Rightarrow>
          (case classCounters h p of
             None \<Rightarrow> None
           | Some cc \<Rightarrow>
               (case clearChildClassCounters
                       (h\<lparr>classCounters :=
                            (classCounters h)(p \<mapsto> cc\<lparr>offsets := None, offsetCount := - 1\<rparr>)\<rparr>)
                       (Some p) of
                  None \<Rightarrow> None
                | Some h' \<Rightarrow> clear_loop it h')))"

definition clear :: "bool \<Rightarrow> TSnapShotContainer \<times> heap \<Rightarrow> (TSnapShotContainer \<times> heap) option" where
  "clear isForce s =
     (case s of (this, h) \<Rightarrow>
        if \<not> isForce \<and> isCleared this then Some (this, h)
        else (case clear_loop (counterMap this) h of
                None \<Rightarrow> None
              | Some h' \<Rightarrow> Some (this\<lparr>isCleared := True\<rparr>, h')))"


section \<open>Class counters of a container\<close>

text \<open>\<open>findClass\<close>: the stored pointer, or \<open>NULL\<close> when the key is absent.\<close>

definition findClass :: "addr option \<Rightarrow> TSnapShotContainer \<Rightarrow> addr option" where
  "findClass objDataPtr this =
     (case map_of (counterMap this) objDataPtr of None \<Rightarrow> None | Some clsCounter \<Rightarrow> clsCounter)"

text \<open>A \<open>TClassCounter\<close> as \<open>calloc\<close> returns it: all bytes zero.\<close>

definition calloc_TClassCounter :: TClassCounter where
  "calloc_TClassCounter =
     \<lparr>root_counter = None, child = None, spinlock = 0, offsets = None, offsetCount = 0\<rparr>"

text \<open>
  \<open>pushNewClass\<close>.  What the allocator and the map do is an input: \<open>cur_alloc\<close> is
  the result of \<open>calloc\<close> (\<open>None\<close> when it fails), \<open>counter_alloc\<close> the block that
  \<open>posix_memalign\<close> stores (\<open>None\<close> when it returns an error), and \<open>insert_ok\<close> is
  false when \<open>counterMap[objData]\<close> throws.  The block of \<open>posix_memalign\<close> is
  zeroed by \<open>clearObjectCounter\<close> right after the allocation.  The assignment
  \<open>counterMap[objData] = cur\<close> replaces the value stored under an existing key.
\<close>

definition pushNewClass ::
  "addr option \<Rightarrow> addr option \<Rightarrow> addr option \<Rightarrow> bool \<Rightarrow> TSnapShotContainer \<times> heap
     \<Rightarrow> addr option \<times> TSnapShotContainer \<times> heap" where
  "pushNewClass objDataPtr cur_alloc counter_alloc insert_ok s =
     (case s of (this, h) \<Rightarrow>
        (case cur_alloc of
           None \<Rightarrow> (None, this, h)
         | Some cur \<Rightarrow>
             (case counter_alloc of
                None \<Rightarrow> (None, this, h\<lparr>classCounters := (classCounters h)(cur := None)\<rparr>)
              | Some b \<Rightarrow>
                  if insert_ok then
                    (Some cur,
                     this\<lparr>counterMap := AList.update objDataPtr (Some cur) (counterMap this)\<rparr>,
                     h\<lparr>classCounters := (classCounters h)
                          (cur \<mapsto> calloc_TClassCounter\<lparr>offsetCount := - 1, root_counter := Some b\<rparr>),
                       objCounters := (objCounters h)(b \<mapsto> zero_counter)\<rparr>)
                  else
                    (None, this,
                     h\<lparr>classCounters := (classCounters h)(cur := None),
                       objCounters := (objCounters h)(b := None)\<rparr>))))"

section \<open>The child list of a class counter\<close>

text \<open>The loop of \<open>pushNewChildClass\<close> that walks to the last node.\<close>

partial_function (option) last_loop :: "heap \<Rightarrow> addr \<Rightarrow> addr option" where
  "last_loop h ctr =
     (case childCounters h ctr of
        None \<Rightarrow> None
      | Some c \<Rightarrow> (case next c of None \<Rightarrow> Some ctr | Some n \<Rightarrow> last_loop h n))"

text \<open>
  \<open>pushNewChildClass\<close>: \<open>newCounter_alloc\<close> is the result of \<open>calloc\<close> and
  \<open>counter_alloc\<close> the block of \<open>posix_memalign\<close>, as in \<open>pushNewClass\<close>.  The node is
  chained at the tail.  The spin lock is taken and released around the chaining; it
  is defined outside the sources at hand and, with one thread, leaves the lock word
  as it was.
\<close>

definition pushNewChildClass ::
  "addr option \<Rightarrow> addr option \<Rightarrow> addr option \<Rightarrow> addr option \<Rightarrow> heap
     \<Rightarrow> (addr option \<times> heap) option" where
  "pushNewChildClass clsCounter objDataPtr newCounter_alloc counter_alloc h =
     (case newCounter_alloc of
        None \<Rightarrow> Some (None, h)
      | Some newCounter \<Rightarrow>
          (case counter_alloc of
             None \<Rightarrow> Some (None, h\<lparr>childCounters := (childCounters h)(newCounter := None)\<rparr>)
           | Some b \<Rightarrow>
               let h1 = h\<lparr>childCounters := (childCounters h)
                             (newCounter \<mapsto>
                                \<lparr>counter = Some b, objData = objDataPtr, next = None, callCount = 0\<rparr>),
                          objCounters := (objCounters h)(b \<mapsto> zero_counter)\<rparr>
               in (case clsCounter of
                     None \<Rightarrow> None
                   | Some k \<Rightarrow>
                       (case classCounters h1 k of
                          None \<Rightarrow> None
                        | Some cc \<Rightarrow>
                            (case child cc of
                               None \<Rightarrow>
                                 Some (Some newCounter,
                                       h1\<lparr>classCounters :=
                                            (classCounters h1)(k \<mapsto> cc\<lparr>child := Some newCounter\<rparr>)\<rparr>)
                             | Some first \<Rightarrow>
                                 (case last_loop h1 first of
                                    None \<Rightarrow> None
                                  | Some l \<Rightarrow>
                                      (case childCounters h1 l of
                                         None \<Rightarrow> None
                                       | Some lc \<Rightarrow>
                                           Some (Some newCounter,
                                                 h1\<lparr>childCounters :=
                                                      (childCounters h1)
                                                        (l \<mapsto> lc\<lparr>next := Some newCounter\<rparr>)\<rparr>))))))))"

text \<open>The search loop of \<open>findChildClass\<close>: it ends with a miss at the end of the
  list, or with a hit and the two nodes before it.\<close>

datatype search = Miss | Hit "addr option" "addr option" addr

partial_function (option) find_loop ::
  "heap \<Rightarrow> addr option \<Rightarrow> addr option \<Rightarrow> addr option \<Rightarrow> addr \<Rightarrow> search option" where
  "find_loop h oop morePrevCounter prevCounter ctr =
     (case childCounters h ctr of
        None \<Rightarrow> None
      | Some c \<Rightarrow>
          (case objData c of
             None \<Rightarrow> None
           | Some d \<Rightarrow>
               (case objDatas h d of
                  None \<Rightarrow> None
                | Some od \<Rightarrow>
                    if klassOop od \<noteq> oop then
                      (case next c of
                         None \<Rightarrow> Some Miss
                       | Some n \<Rightarrow> find_loop h oop prevCounter (Some ctr) n)
                    else Some (Hit morePrevCounter prevCounter ctr))))"

text \<open>Writes to one field of a child node and of a class counter.\<close>

definition set_next :: "addr \<Rightarrow> addr option \<Rightarrow> heap \<Rightarrow> heap option" where
  "set_next a v h =
     (case childCounters h a of
        None \<Rightarrow> None
      | Some c \<Rightarrow> Some (h\<lparr>childCounters := (childCounters h)(a \<mapsto> c\<lparr>next := v\<rparr>)\<rparr>))"

definition set_child :: "addr \<Rightarrow> addr option \<Rightarrow> heap \<Rightarrow> heap option" where
  "set_child k v h =
     (case classCounters h k of
        None \<Rightarrow> None
      | Some cc \<Rightarrow> Some (h\<lparr>classCounters := (classCounters h)(k \<mapsto> cc\<lparr>child := v\<rparr>)\<rparr>))"

definition inc_callCount :: "addr \<Rightarrow> heap \<Rightarrow> heap option" where
  "inc_callCount a h =
     (case childCounters h a of
        None \<Rightarrow> None
      | Some c \<Rightarrow>
          Some (h\<lparr>childCounters := (childCounters h)(a \<mapsto> c\<lparr>callCount := callCount c + 1\<rparr>)\<rparr>))"

text \<open>The LFU part of \<open>findChildClass\<close>, after a hit on \<open>ctr\<close>: the call count is
  incremented (an \<open>unsigned int\<close>, so it wraps), and the node is moved one place
  toward the head when its predecessor's call count is not larger.\<close>

definition lfu_promote :: "addr \<Rightarrow> addr option \<Rightarrow> addr option \<Rightarrow> addr \<Rightarrow> heap \<Rightarrow> heap option" where
  "lfu_promote k morePrevCounter prevCounter ctr h =
     (case inc_callCount ctr h of
        None \<Rightarrow> None
      | Some h1 \<Rightarrow>
          (case prevCounter of
             None \<Rightarrow> Some h1
           | Some p \<Rightarrow>
               (case childCounters h1 p of
                  None \<Rightarrow> None
                | Some pc \<Rightarrow>
                    (case childCounters h1 ctr of
                       None \<Rightarrow> None
                     | Some c \<Rightarrow>
                         if callCount pc \<le> callCount c then
                           (case set_next p (next c) h1 of
                              None \<Rightarrow> None
                            | Some h2 \<Rightarrow>
                                (case (case morePrevCounter of
                                         Some mp \<Rightarrow> set_next mp (Some ctr) h2
                                       | None \<Rightarrow> set_child k (Some ctr) h2) of
                                   None \<Rightarrow> None
                                 | Some h3 \<Rightarrow> set_next ctr (Some p) h3))
                         else Some h1))))"

definition findChildClass ::
  "addr option \<Rightarrow> addr option \<Rightarrow> heap \<Rightarrow> (addr option \<times> heap) option" where
  "findChildClass clsCounter oop h =
     (case clsCounter of
        None \<Rightarrow> None
      | Some k \<Rightarrow>
          (case classCounters h k of
             None \<Rightarrow> None
           | Some cc \<Rightarrow>
               (case child cc of
                  None \<Rightarrow> Some (None, h)
                | Some first \<Rightarrow>
                    (case find_loop h oop None None first of
                       None \<Rightarrow> None
                     | Some Miss \<Rightarrow> Some (None, h)
                     | Some (Hit morePrevCounter prevCounter ctr) \<Rightarrow>
                         (case lfu_promote k morePrevCounter prevCounter ctr h of
                            None \<Rightarrow> None
                          | Some h' \<Rightarrow> Some (Some ctr, h'))))))"


section \<open>The header of a container\<close>

definition getContainerSize :: "TSnapShotContainer \<Rightarrow> jlong" where
  "getContainerSize this = size_hdr (header this)"




definition getHeader :: "TSnapShotContainer \<Rightarrow> TSnapShotFileHeader" where
  "getHeader this = header this"

text \<open>\<open>TJvmInfo\<close> is declared outside the sources at hand; it is modelled by the
  values that its getters return to \<open>setJvmInfo\<close>.\<close>

record TJvmInfo =
  getGCCause :: "char list"
  getGCWorktime :: jlong
  getFGCCount :: jlong
  getYGCCount :: jlong
  getNewAreaSize :: jlong
  getOldAreaSize :: jlong
  getMetaspaceUsage :: jlong
  getMetaspaceCapacity :: jlong

text \<open>A C string ends at its first NUL byte.\<close>

definition NUL :: char where
  "NUL = CHR 0x00"

definition c_str :: "char list \<Rightarrow> char list" where
  "c_str bytes = takeWhile (\<lambda>c. c \<noteq> NUL) bytes"

definition strlen :: "char list \<Rightarrow> nat" where
  "strlen bytes = length (c_str bytes)"

text \<open>
  \<open>strcpy\<close> has no bound: it stores every character of the source and the
  terminating NUL, \<open>strlen src + 1\<close> bytes from the start of the destination.  When
  they fit, the rest of the destination array is left as it was.  When they do not,
  the bytes are stored past the end of the array, which is undefined behaviour in C:
  the model returns \<open>WritePastEnd n cap\<close>, for \<open>n\<close> bytes stored into an array of
  \<open>cap\<close> bytes.
\<close>

datatype undefined_behaviour = WritePastEnd nat nat

definition strcpy :: "char list \<Rightarrow> char list \<Rightarrow> undefined_behaviour + char list" where
  "strcpy dst src =
     (let stored = c_str src @ [NUL]
      in if length stored \<le> length dst then Inr (stored @ drop (length stored) dst)
         else Inl (WritePastEnd (length stored) (length dst)))"

text \<open>\<open>setJvmInfo\<close>.  \<open>gc\<close> is the value of the enumerator \<open>GC\<close> of \<open>TInvokeCause\<close>,
  which is declared outside the sources at hand.  \<open>info\<close> may be \<open>NULL\<close>.\<close>

definition setJvmInfo ::
  "jint \<Rightarrow> TJvmInfo option \<Rightarrow> TSnapShotContainer \<Rightarrow> undefined_behaviour + TSnapShotContainer" where
  "setJvmInfo gc info this =
     (case info of
        None \<Rightarrow> Inr this
      | Some i \<Rightarrow>
          (case (if cause (header this) = gc then
                   (case strcpy (gcCause (header this)) (getGCCause i) of
                      Inl ub \<Rightarrow> Inl ub
                    | Inr buf \<Rightarrow>
                        Inr ((header this)\<lparr>gcCause := buf,
                                           gcCauseLen := of_nat (strlen buf),
                                           gcWorktime := getGCWorktime i\<rparr>))
                 else
                   Inr ((header this)\<lparr>gcCauseLen := 1,
                                      gcCause := (gcCause (header this))[0 := NUL],
                                      gcWorktime := 0\<rparr>)) of
             Inl ub \<Rightarrow> Inl ub
           | Inr hd1 \<Rightarrow>
               Inr (this\<lparr>header := hd1\<lparr>FGCCount := getFGCCount i,
                                          YGCCount := getYGCCount i,
                                          newAreaSize := getNewAreaSize i,
                                          oldAreaSize := getOldAreaSize i,
                                          metaspaceUsage := getMetaspaceUsage i,
                                          metaspaceCapacity := getMetaspaceCapacity i\<rparr>\<rparr>)))"

section \<open>Construction, destruction and the stock queue\<close>

definition EXTENDED_SNAPSHOT :: "8 word" where
  "EXTENDED_SNAPSHOT = 0x80"

definition EXTENDED_REFTREE_SNAPSHOT :: "8 word" where
  "EXTENDED_REFTREE_SNAPSHOT = 0x81"

text \<open>
  The constructor.  It sets five header fields and \<open>isCleared\<close>; the other header
  fields keep what the allocated memory held, which is the argument \<open>uninit\<close>.
  \<open>collectRefTree\<close> is the configuration flag \<open>conf->CollectRefTree()->get()\<close> and
  \<open>bom\<close> the macro \<open>BOM\<close>, both defined outside the sources at hand.
\<close>

definition TSnapShotContainer_new :: "bool \<Rightarrow> 8 word \<Rightarrow> TSnapShotFileHeader \<Rightarrow> TSnapShotContainer" where
  "TSnapShotContainer_new collectRefTree bom uninit =
     \<lparr>header = uninit\<lparr>magicNumber :=
                           (if collectRefTree then EXTENDED_REFTREE_SNAPSHOT else EXTENDED_SNAPSHOT),
                         byteOrderMark := bom,
                         snapShotTime := 0,
                         size_hdr := 0,
                         gcCause := replicate 80 NUL\<rparr>,
      counterMap = [],
      isCleared = True\<rparr>"

text \<open>\<open>free\<close> of a counter block: \<open>free(NULL)\<close> does nothing; freeing a block that
  is not allocated is an invalid access.\<close>

definition free_counter :: "addr option \<Rightarrow> heap \<Rightarrow> heap option" where
  "free_counter ctr h =
     (case ctr of
        None \<Rightarrow> Some h
      | Some a \<Rightarrow>
          (case objCounters h a of
             None \<Rightarrow> None
           | Some oc \<Rightarrow> Some (h\<lparr>objCounters := (objCounters h)(a := None)\<rparr>)))"

text \<open>The loop of the destructor that deallocates a child list.\<close>

partial_function (option) free_children :: "heap \<Rightarrow> addr option \<Rightarrow> heap option" where
  "free_children h ctr =
     (case ctr of
        None \<Rightarrow> Some h
      | Some a \<Rightarrow>
          (case childCounters h a of
             None \<Rightarrow> None
           | Some c \<Rightarrow>
               (case free_counter (counter c) h of
                  None \<Rightarrow> None
                | Some h1 \<Rightarrow>
                    free_children (h1\<lparr>childCounters := (childCounters h1)(a := None)\<rparr>) (next c))))"

text \<open>The loop of the destructor over \<open>counterMap\<close>.\<close>

fun destroy_loop :: "(addr option \<times> addr option) list \<Rightarrow> heap \<Rightarrow> heap option" where
  "destroy_loop [] h = Some h"
| "destroy_loop ((k, clsCounter) # it) h =
     (case clsCounter of
        None \<Rightarrow> destroy_loop it h
      | Some p \<Rightarrow>
          (case classCounters h p of
             None \<Rightarrow> None
           | Some cc \<Rightarrow>
               (case free_children h (child cc) of
                  None \<Rightarrow> None
                | Some h1 \<Rightarrow>
                    (case free_counter (root_counter cc) h1 of
                       None \<Rightarrow> None
                     | Some h2 \<Rightarrow>
                         destroy_loop it
                           (h2\<lparr>classCounters := (classCounters h2)(p := None)\<rparr>)))))"

text \<open>The process state: the allocated containers, the stock queue (\<open>None\<close> while the
  pointer \<open>stockQueue\<close> is \<open>NULL\<close>) and the stores.  The queue holds pointers that are
  not \<open>NULL\<close>, since \<open>releaseInstance\<close> returns early on \<open>NULL\<close>.\<close>

record pool =
  containers :: "addr \<rightharpoonup> TSnapShotContainer"
  stockQueue :: "addr list option"
  stores :: heap

definition MAX_STOCK_COUNT :: nat where
  "MAX_STOCK_COUNT = 2"

text \<open>\<open>delete instance\<close>: the destructor, then the container itself is released.\<close>

definition delete_instance :: "addr \<Rightarrow> pool \<Rightarrow> pool option" where
  "delete_instance a s =
     (case containers s a of
        None \<Rightarrow> None
      | Some c \<Rightarrow>
          (case destroy_loop (counterMap c) (stores s) of
             None \<Rightarrow> None
           | Some h' \<Rightarrow> Some (s\<lparr>containers := (containers s)(a := None), stores := h'\<rparr>)))"

text \<open>\<open>globalInitialize\<close>: \<open>new_ok\<close> is false when \<open>new TSnapShotQueue()\<close> throws.\<close>

definition globalInitialize :: "bool \<Rightarrow> pool \<Rightarrow> bool \<times> pool" where
  "globalInitialize new_ok s =
     (if new_ok then (True, s\<lparr>stockQueue := Some []\<rparr>) else (False, s))"

fun finalize_loop :: "addr list \<Rightarrow> pool \<Rightarrow> pool option" where
  "finalize_loop [] s = Some s"
| "finalize_loop (item # q) s =
     (case delete_instance item (s\<lparr>stockQueue := Some q\<rparr>) of
        None \<Rightarrow> None
      | Some s' \<Rightarrow> finalize_loop q s')"

definition globalFinalize :: "pool \<Rightarrow> pool option" where
  "globalFinalize s =
     (case stockQueue s of
        None \<Rightarrow> Some s
      | Some q \<Rightarrow>
          (case finalize_loop q s of
             None \<Rightarrow> None
           | Some s' \<Rightarrow> Some (s'\<lparr>stockQueue := None\<rparr>)))"

text \<open>
  \<open>getInstance\<close>: the head of the queue when there is one; otherwise a new
  container.  \<open>new_alloc\<close> is what \<open>new\<close> does: \<open>None\<close> when it throws, else the address
  and the previous contents of the memory for the header.
\<close>

definition getInstance ::
  "bool \<Rightarrow> 8 word \<Rightarrow> (addr \<times> TSnapShotFileHeader) option \<Rightarrow> pool \<Rightarrow> (addr option \<times> pool) option" where
  "getInstance collectRefTree bom new_alloc s =
     (case stockQueue s of
        None \<Rightarrow> None
      | Some q \<Rightarrow>
          (case q of
             item # rest \<Rightarrow> Some (Some item, s\<lparr>stockQueue := Some rest\<rparr>)
           | [] \<Rightarrow>
               (case new_alloc of
                  None \<Rightarrow> Some (None, s)
                | Some (a, uninit) \<Rightarrow>
                    Some (Some a,
                          s\<lparr>containers :=
                               (containers s)(a \<mapsto> TSnapShotContainer_new collectRefTree bom uninit)\<rparr>))))"

text \<open>\<open>releaseInstance\<close>: \<open>push_ok\<close> is false when \<open>stockQueue->push\<close> throws.\<close>

definition releaseInstance :: "addr option \<Rightarrow> bool \<Rightarrow> pool \<Rightarrow> pool option" where
  "releaseInstance instance push_ok s =
     (case instance of
        None \<Rightarrow> Some s
      | Some a \<Rightarrow>
          (case stockQueue s of
             None \<Rightarrow> None
           | Some q \<Rightarrow>
               if length q < MAX_STOCK_COUNT then
                 (case containers s a of
                    None \<Rightarrow> None
                  | Some c \<Rightarrow>
                      (case clear False (c, stores s) of
                         None \<Rightarrow> None
                       | Some (c', h') \<Rightarrow>
                           let s1 = s\<lparr>containers := (containers s)(a \<mapsto> c'), stores := h'\<rparr>
                           in if push_ok then Some (s1\<lparr>stockQueue := Some (q @ [a])\<rparr>)
                              else delete_instance a s1))
               else delete_instance a s))"

section \<open>The class container\<close>

text \<open>\<open>TClassContainer\<close>: \<open>classMap\<close> maps a class oop to its class record; a stored
  record pointer may be \<open>NULL\<close>.  The trap sender is not modelled.\<close>

record TClassContainer =
  classMap :: "addr option \<rightharpoonup> addr option"
  needToClear :: bool
  unloadedList :: "addr list"

definition findClass_reg :: "addr option \<Rightarrow> TClassContainer \<Rightarrow> addr option" where
  "findClass_reg oop this =
     (case classMap this oop of None \<Rightarrow> None | Some objDataPtr \<Rightarrow> objDataPtr)"

text \<open>\<open>operator[]\<close> of the map inserts \<open>NULL\<close> under a key that is absent.\<close>

definition subscript :: "(addr option \<rightharpoonup> addr option) \<Rightarrow> addr option \<Rightarrow> (addr option \<rightharpoonup> addr option)" where
  "subscript m key = (case m key of None \<Rightarrow> m(key \<mapsto> None) | Some v \<Rightarrow> m)"

text \<open>\<open>updateClass\<close>: the right-hand side \<open>(*classMap)[oldKlassOop]\<close> is read, stored
  under \<open>newKlassOop\<close>, and then the old key is erased.  The class records are in the
  store \<open>objDatas\<close>, which the function takes and returns as it is.\<close>

definition updateClass ::
  "addr option \<Rightarrow> addr option \<Rightarrow> TClassContainer \<times> heap \<Rightarrow> TClassContainer \<times> heap" where
  "updateClass oldKlassOop newKlassOop s =
     (case s of (this, h) \<Rightarrow>
        let m1 = subscript (classMap this) oldKlassOop;
            v = (case m1 oldKlassOop of None \<Rightarrow> None | Some objDataPtr \<Rightarrow> objDataPtr);
            m2 = (subscript m1 newKlassOop)(newKlassOop \<mapsto> v)
        in (this\<lparr>classMap := m2(oldKlassOop := None)\<rparr>, h))"

section \<open>Reachable nodes, validity and the cleared state\<close>

text \<open>\<open>Path ch p as q\<close>: following \<open>next\<close> from \<open>p\<close> passes the nodes \<open>as\<close> and
  arrives at \<open>q\<close>.\<close>

fun Path :: "(addr \<rightharpoonup> TChildClassCounter) \<Rightarrow> addr option \<Rightarrow> addr list \<Rightarrow> addr option \<Rightarrow> bool" where
  "Path ch p [] q = (p = q)"
| "Path ch p (a # as) q =
     (p = Some a \<and> (case ch a of None \<Rightarrow> False | Some c \<Rightarrow> Path ch (next c) as q))"

text \<open>\<open>child_list ch p\<close>: the nodes reachable from \<open>p\<close>, in list order; it has no
  value when the walk meets a node that is not allocated or never reaches \<open>NULL\<close>.\<close>

partial_function (option) child_list ::
  "(addr \<rightharpoonup> TChildClassCounter) \<Rightarrow> addr option \<Rightarrow> addr list option" where
  "child_list ch p =
     (case p of
        None \<Rightarrow> Some []
      | Some a \<Rightarrow>
          (case ch a of
             None \<Rightarrow> None
           | Some c \<Rightarrow>
               Option.bind (child_list ch (next c)) (\<lambda>as. Some (a # as))))"

text \<open>The child list of a class counter.\<close>

definition children_of :: "heap \<Rightarrow> addr \<Rightarrow> addr list option" where
  "children_of h k =
     (case classCounters h k of
        None \<Rightarrow> None
      | Some cc \<Rightarrow> child_list (childCounters h) (child cc))"

text \<open>Validity: the counter blocks are allocated and the child list ends.\<close>

definition counter_ok :: "heap \<Rightarrow> addr option \<Rightarrow> bool" where
  "counter_ok h ctr = (case ctr of None \<Rightarrow> False | Some a \<Rightarrow> objCounters h a \<noteq> None)"

definition child_ok :: "heap \<Rightarrow> addr \<Rightarrow> bool" where
  "child_ok h a = (case childCounters h a of None \<Rightarrow> False | Some c \<Rightarrow> counter_ok h (counter c))"

definition class_ok :: "heap \<Rightarrow> addr \<Rightarrow> bool" where
  "class_ok h p =
     (case classCounters h p of
        None \<Rightarrow> False
      | Some cc \<Rightarrow>
          counter_ok h (root_counter cc) \<and>
          (case child_list (childCounters h) (child cc) of
             None \<Rightarrow> False
           | Some as \<Rightarrow> list_all (child_ok h) as))"

definition on_classes :: "(addr \<Rightarrow> bool) \<Rightarrow> TSnapShotContainer \<Rightarrow> bool" where
  "on_classes P this =
     list_all (\<lambda>e. case snd e of None \<Rightarrow> True | Some p \<Rightarrow> P p) (counterMap this)"

definition container_ok :: "TSnapShotContainer \<Rightarrow> heap \<Rightarrow> bool" where
  "container_ok this h = on_classes (class_ok h) this"

text \<open>The nodes of a child list can be searched: each has a class record.\<close>

definition child_searchable :: "heap \<Rightarrow> addr \<Rightarrow> bool" where
  "child_searchable h a =
     (case childCounters h a of
        None \<Rightarrow> False
      | Some c \<Rightarrow> (case objData c of None \<Rightarrow> False | Some d \<Rightarrow> objDatas h d \<noteq> None))"

text \<open>The cleared state: a counter reads \<open>(0, 0)\<close>.\<close>

definition reads_zero :: "heap \<Rightarrow> addr option \<Rightarrow> bool" where
  "reads_zero h ctr =
     (case ctr of None \<Rightarrow> False | Some a \<Rightarrow> objCounters h a = Some zero_counter)"

definition child_zero :: "heap \<Rightarrow> addr \<Rightarrow> bool" where
  "child_zero h a = (case childCounters h a of None \<Rightarrow> False | Some c \<Rightarrow> reads_zero h (counter c))"

definition class_cleared :: "heap \<Rightarrow> addr \<Rightarrow> bool" where
  "class_cleared h p =
     (case classCounters h p of
        None \<Rightarrow> False
      | Some cc \<Rightarrow>
          reads_zero h (root_counter cc) \<and> offsets cc = None \<and>
          (case child_list (childCounters h) (child cc) of
             None \<Rightarrow> False
           | Some as \<Rightarrow> list_all (child_zero h) as))"

definition offsetCount_reset :: "heap \<Rightarrow> addr \<Rightarrow> bool" where
  "offsetCount_reset h p =
     (case classCounters h p of None \<Rightarrow> False | Some cc \<Rightarrow> offsetCount cc = - 1)"


text \<open>The class oop that the search loop reads at a node, when it can be read.\<close>

definition node_oop :: "heap \<Rightarrow> addr \<Rightarrow> addr option option" where
  "node_oop h a =
     (case childCounters h a of
        None \<Rightarrow> None
      | Some c \<Rightarrow> (case objData c of None \<Rightarrow> None | Some d \<Rightarrow> map_option klassOop (objDatas h d)))"

text \<open>A class counter whose child list ends and can be searched.\<close>

definition searchable_class :: "heap \<Rightarrow> addr \<Rightarrow> bool" where
  "searchable_class h k =
     (case children_of h k of None \<Rightarrow> False | Some as \<Rightarrow> list_all (child_searchable h) as)"

text \<open>\<open>prevs mp pv us\<close>: the values of \<open>morePrevCounter\<close> and \<open>prevCounter\<close> after the
  search loop, started with \<open>mp\<close> and \<open>pv\<close>, has passed the nodes \<open>us\<close>.\<close>

fun prevs :: "addr option \<Rightarrow> addr option \<Rightarrow> addr list \<Rightarrow> addr option \<times> addr option" where
  "prevs mp pv [] = (mp, pv)"
| "prevs mp pv (u # us) = prevs pv (Some u) us"

section \<open>Sequences of calls\<close>

datatype class_call =
  PushNewClass "addr option" "addr option" "addr option" bool
| FindClass "addr option"

fun run_class_call ::
  "class_call \<Rightarrow> TSnapShotContainer \<times> heap \<Rightarrow> addr option \<times> TSnapShotContainer \<times> heap" where
  "run_class_call (PushNewClass r cur_alloc counter_alloc insert_ok) s =
     pushNewClass r cur_alloc counter_alloc insert_ok s"
| "run_class_call (FindClass r) s = (findClass r (fst s), s)"

text \<open>The calls in order, with the value each returned.\<close>

fun run_class_calls ::
  "class_call list \<Rightarrow> TSnapShotContainer \<times> heap
     \<Rightarrow> addr option list \<times> TSnapShotContainer \<times> heap" where
  "run_class_calls [] s = ([], s)"
| "run_class_calls (c # cs) s =
     (case run_class_call c s of
        (r, s') \<Rightarrow> (case run_class_calls cs s' of (rs, s'') \<Rightarrow> (r # rs, s'')))"

text \<open>\<open>latest_push r init cs rs\<close>: the value returned by the last successful
  \<open>pushNewClass\<close> of \<open>r\<close> among the calls \<open>cs\<close> with results \<open>rs\<close>, and \<open>init\<close> when
  there is none.\<close>

fun latest_push :: "addr option \<Rightarrow> addr option \<Rightarrow> class_call list \<Rightarrow> addr option list \<Rightarrow> addr option" where
  "latest_push r init (PushNewClass r' ca cb ok # cs) (Some p # rs) =
     latest_push r (if r' = r then Some p else init) cs rs"
| "latest_push r init (c # cs) (res # rs) = latest_push r init cs rs"
| "latest_push r init cs rs = init"

fun findChildClass_seq ::
  "addr option \<Rightarrow> addr option list \<Rightarrow> heap \<Rightarrow> (addr option list \<times> heap) option" where
  "findChildClass_seq clsCounter [] h = Some ([], h)"
| "findChildClass_seq clsCounter (oop # ks) h =
     (case findChildClass clsCounter oop h of
        None \<Rightarrow> None
      | Some (r, h') \<Rightarrow>
          (case findChildClass_seq clsCounter ks h' of
             None \<Rightarrow> None
           | Some (rs, h'') \<Rightarrow> Some (r # rs, h'')))"

fun pushNewChildClass_seq ::
  "addr option \<Rightarrow> (addr option \<times> addr option \<times> addr option) list \<Rightarrow> heap
     \<Rightarrow> (addr option list \<times> heap) option" where
  "pushNewChildClass_seq clsCounter [] h = Some ([], h)"
| "pushNewChildClass_seq clsCounter ((d, na, ca) # ps) h =
     (case pushNewChildClass clsCounter d na ca h of
        None \<Rightarrow> None
      | Some (r, h') \<Rightarrow>
          (case pushNewChildClass_seq clsCounter ps h' of
             None \<Rightarrow> None
           | Some (rs, h'') \<Rightarrow> Some (r # rs, h'')))"

fun getInstance_seq ::
  "bool \<Rightarrow> 8 word \<Rightarrow> (addr \<times> TSnapShotFileHeader) option list \<Rightarrow> pool
     \<Rightarrow> (addr option list \<times> pool) option" where
  "getInstance_seq collectRefTree bom [] s = Some ([], s)"
| "getInstance_seq collectRefTree bom (na # nas) s =
     (case getInstance collectRefTree bom na s of
        None \<Rightarrow> None
      | Some (r, s') \<Rightarrow>
          (case getInstance_seq collectRefTree bom nas s' of
             None \<Rightarrow> None
           | Some (rs, s'') \<Rightarrow> Some (r # rs, s'')))"

fun releaseInstance_seq :: "(addr option \<times> bool) list \<Rightarrow> pool \<Rightarrow> pool option" where
  "releaseInstance_seq [] s = Some s"
| "releaseInstance_seq ((i, push_ok) # is) s =
     (case releaseInstance i push_ok s of
        None \<Rightarrow> None
      | Some s' \<Rightarrow> releaseInstance_seq is s')"

section \<open>What clearing may change\<close>

definition reset_offsets :: "TClassCounter \<Rightarrow> TClassCounter" where
  "reset_offsets cc = cc\<lparr>offsets := None, offsetCount := - 1\<rparr>"

text \<open>\<open>clear_frame h h'\<close>: from \<open>h\<close> to \<open>h'\<close> the child nodes and the class records
  are the same, the same counter blocks are allocated and each holds what it held or
  \<open>(0, 0)\<close>, and each class counter is the same or has only its offset cache reset.\<close>

definition clear_frame :: "heap \<Rightarrow> heap \<Rightarrow> bool" where
  "clear_frame h h' \<longleftrightarrow>
     childCounters h' = childCounters h \<and> objDatas h' = objDatas h \<and>
     (\<forall>a. (objCounters h' a = None \<longleftrightarrow> objCounters h a = None) \<and>
          (objCounters h' a = objCounters h a \<or> objCounters h' a = Some zero_counter)) \<and>
     (\<forall>p. classCounters h' p = classCounters h p \<or>
          classCounters h' p = map_option reset_offsets (classCounters h p))"

text \<open>\<open>lfu_frame h h'\<close>: from \<open>h\<close> to \<open>h'\<close> the counter blocks and the class records
  are the same, the same child nodes are allocated with the same \<open>counter\<close> and
  \<open>objData\<close> pointers, and the class counters differ at most in \<open>child\<close>.\<close>

definition lfu_frame :: "heap \<Rightarrow> heap \<Rightarrow> bool" where
  "lfu_frame h h' \<longleftrightarrow>
     objCounters h' = objCounters h \<and> objDatas h' = objDatas h \<and>
     (\<forall>a. map_option counter (childCounters h' a) = map_option counter (childCounters h a) \<and>
          map_option objData (childCounters h' a) = map_option objData (childCounters h a)) \<and>
     (\<forall>p. map_option (\<lambda>cc. cc\<lparr>child := None\<rparr>) (classCounters h' p) =
          map_option (\<lambda>cc. cc\<lparr>child := None\<rparr>) (classCounters h p))"


section \<open>Example states\<close>

definition ex_objData :: "addr option \<Rightarrow> TObjectData" where
  "ex_objData oop =
     \<lparr>tag = 1, classNameLen = 1, className = ''K'', klassOop = oop, oldTotalSize = 0,
      oopType = 0, clsLoaderId = 0, clsLoaderTag = 0, isRemoved = False, instanceSize = 24\<rparr>"

definition ex_header :: TSnapShotFileHeader where
  "ex_header =
     \<lparr>magicNumber = 0x80, byteOrderMark = 1, snapShotTime = 0, size_hdr = 0, cause = 2,
      gcCauseLen = 1, gcCause = replicate 80 NUL, FGCCount = 0, YGCCount = 0, gcWorktime = 0,
      newAreaSize = 0, oldAreaSize = 0, totalHeapSize = 0, metaspaceUsage = 0,
      metaspaceCapacity = 0\<rparr>"

text \<open>One class counter at address 10 with the children 30 and 31, all counted into.\<close>

definition ex_heap :: heap where
  "ex_heap =
     \<lparr>classCounters =
        [10 \<mapsto> \<lparr>root_counter = Some 20, child = Some 30, spinlock = 0, offsets = Some 40,
                 offsetCount = 3\<rparr>],
      childCounters =
        [30 \<mapsto> \<lparr>counter = Some 21, objData = Some 51, next = Some 31, callCount = 2\<rparr>,
         31 \<mapsto> \<lparr>counter = Some 22, objData = Some 52, next = None, callCount = 1\<rparr>],
      objCounters =
        [20 \<mapsto> \<lparr>count_oc = 5, total_size = 120\<rparr>,
         21 \<mapsto> \<lparr>count_oc = 3, total_size = 72\<rparr>,
         22 \<mapsto> \<lparr>count_oc = 2, total_size = 48\<rparr>],
      objDatas =
        [50 \<mapsto> ex_objData (Some 1000), 51 \<mapsto> ex_objData (Some 1001),
         52 \<mapsto> ex_objData (Some 1002)]\<rparr>"

definition ex_container :: TSnapShotContainer where
  "ex_container = \<lparr>header = ex_header, counterMap = [(Some 50, Some 10)], isCleared = False\<rparr>"

text \<open>The same class counter with every counter at zero and no offset cache.\<close>

definition ex_heap_zero :: heap where
  "ex_heap_zero =
     \<lparr>classCounters =
        [10 \<mapsto> \<lparr>root_counter = Some 20, child = Some 30, spinlock = 0, offsets = None,
                 offsetCount = - 1\<rparr>],
      childCounters =
        [30 \<mapsto> \<lparr>counter = Some 21, objData = Some 51, next = Some 31, callCount = 2\<rparr>,
         31 \<mapsto> \<lparr>counter = Some 22, objData = Some 52, next = None, callCount = 1\<rparr>],
      objCounters =
        [20 \<mapsto> zero_counter, 21 \<mapsto> zero_counter, 22 \<mapsto> zero_counter,
         23 \<mapsto> \<lparr>count_oc = 1, total_size = 24\<rparr>],
      objDatas =
        [50 \<mapsto> ex_objData (Some 1000), 51 \<mapsto> ex_objData (Some 1001),
         52 \<mapsto> ex_objData (Some 1002)]\<rparr>"

definition ex_container_cleared :: TSnapShotContainer where
  "ex_container_cleared =
     \<lparr>header = ex_header, counterMap = [(Some 50, Some 10)], isCleared = True\<rparr>"

text \<open>The record at 50 with its flag \<open>isRemoved\<close> set, and a class container that has
  it under the oop \<open>0x1000\<close>.\<close>

definition ex_heap_unloaded :: heap where
  "ex_heap_unloaded =
     ex_heap\<lparr>objDatas := (objDatas ex_heap)(50 \<mapsto> (ex_objData (Some 0x1000))\<lparr>isRemoved := True\<rparr>)\<rparr>"

definition ex_registry :: TClassContainer where
  "ex_registry = \<lparr>classMap = [Some 0x1000 \<mapsto> Some 50], needToClear = True, unloadedList = []\<rparr>"

definition ex_info :: TJvmInfo where
  "ex_info =
     \<lparr>getGCCause = ''Allocation Failure'', getGCWorktime = 7, getFGCCount = 42, getYGCCount = 3,
      getNewAreaSize = 100, getOldAreaSize = 200, getMetaspaceUsage = 12345678,
      getMetaspaceCapacity = 20000000\<rparr>"

text \<open>A class counter at 10 that has no child yet.\<close>

definition ex_heap_start :: heap where
  "ex_heap_start =
     \<lparr>classCounters =
        [10 \<mapsto> \<lparr>root_counter = Some 20, child = None, spinlock = 0, offsets = None,
                 offsetCount = - 1\<rparr>],
      childCounters = Map.empty,
      objCounters = [20 \<mapsto> zero_counter],
      objDatas =
        [50 \<mapsto> ex_objData (Some 1000), 51 \<mapsto> ex_objData (Some 1001),
         52 \<mapsto> ex_objData (Some 1002)]\<rparr>"


text \<open>The process right after \<open>globalInitialize\<close>: no container, an empty queue.\<close>

definition ex_pool :: pool where
  "ex_pool =
     snd (globalInitialize True \<lparr>containers = Map.empty, stockQueue = None, stores = ex_heap\<rparr>)"

section \<open>Lemmas on child lists and on clearing\<close>


lemma child_list_None [simp]: "child_list ch None = Some []"
  by (subst child_list.simps) simp

lemma child_list_Some [simp]:
  "child_list ch (Some a) =
     (case ch a of None \<Rightarrow> None
      | Some c \<Rightarrow> Option.bind (child_list ch (next c)) (\<lambda>as. Some (a # as)))"
  by (subst child_list.simps) simp

lemma Path_child_list: "Path ch p as None \<Longrightarrow> child_list ch p = Some as"
  by (induction as arbitrary: p) (auto split: option.splits)

lemma child_list_Path: "child_list ch p = Some as \<Longrightarrow> Path ch p as None"
proof (induction as arbitrary: p)
  case Nil
  then show ?case by (cases p) (auto split: option.splits simp: bind_eq_Some_conv)
next
  case (Cons a as)
  then show ?case by (cases p) (auto split: option.splits simp: bind_eq_Some_conv)
qed

lemma child_list_iff: "child_list ch p = Some as \<longleftrightarrow> Path ch p as None"
  using Path_child_list child_list_Path by blast

lemma clear_frame_refl: "clear_frame h h"
  by (simp add: clear_frame_def)

lemma reset_offsets_idem: "reset_offsets (reset_offsets cc) = reset_offsets cc"
  by (simp add: reset_offsets_def)

lemma clear_frame_trans:
  assumes "clear_frame h h1" and "clear_frame h1 h2"
  shows "clear_frame h h2"
proof -
  have a: "childCounters h2 = childCounters h" "objDatas h2 = objDatas h"
    using assms by (simp_all add: clear_frame_def)
  have b: "(objCounters h2 a = None \<longleftrightarrow> objCounters h a = None) \<and>
           (objCounters h2 a = objCounters h a \<or> objCounters h2 a = Some zero_counter)" for a
  proof -
    from assms(1) have 1: "(objCounters h1 a = None \<longleftrightarrow> objCounters h a = None) \<and>
           (objCounters h1 a = objCounters h a \<or> objCounters h1 a = Some zero_counter)"
      by (simp add: clear_frame_def)
    from assms(2) have 2: "(objCounters h2 a = None \<longleftrightarrow> objCounters h1 a = None) \<and>
           (objCounters h2 a = objCounters h1 a \<or> objCounters h2 a = Some zero_counter)"
      by (simp add: clear_frame_def)
    from 1 2 show ?thesis by auto
  qed
  have c: "classCounters h2 p = classCounters h p \<or>
          classCounters h2 p = map_option reset_offsets (classCounters h p)" for p
  proof -
    from assms(1) have 1: "classCounters h1 p = classCounters h p \<or>
          classCounters h1 p = map_option reset_offsets (classCounters h p)"
      by (simp add: clear_frame_def)
    from assms(2) have 2: "classCounters h2 p = classCounters h1 p \<or>
          classCounters h2 p = map_option reset_offsets (classCounters h1 p)"
      by (simp add: clear_frame_def)
    from 1 2 show ?thesis
      by (cases "classCounters h p") (auto simp: reset_offsets_idem)
  qed
  show ?thesis unfolding clear_frame_def using a b c by blast
qed

lemma clearObjectCounter_frame:
  "counter_ok h ctr \<Longrightarrow> \<exists>h'. clearObjectCounter h ctr = Some h' \<and> clear_frame h h' \<and> reads_zero h' ctr"
  by (auto simp: counter_ok_def clearObjectCounter_def clear_frame_def reads_zero_def zero_counter_def
      split: option.splits)


lemma clear_frame_counter_ok: "clear_frame h h' \<Longrightarrow> counter_ok h' ctr = counter_ok h ctr"
  by (auto simp: clear_frame_def counter_ok_def split: option.splits)

lemma clear_frame_child_ok: "clear_frame h h' \<Longrightarrow> child_ok h' a = child_ok h a"
proof -
  assume f: "clear_frame h h'"
  then have "childCounters h' = childCounters h" by (simp add: clear_frame_def)
  then show ?thesis
    by (simp add: child_ok_def clear_frame_counter_ok [OF f] split: option.splits)
qed

lemma clear_frame_reads_zero: "clear_frame h h' \<Longrightarrow> reads_zero h ctr \<Longrightarrow> reads_zero h' ctr"
  unfolding clear_frame_def reads_zero_def by (cases ctr) (auto, metis)

lemma clear_frame_child_zero: "clear_frame h h' \<Longrightarrow> child_zero h a \<Longrightarrow> child_zero h' a"
  using clear_frame_reads_zero [of h h']
  by (auto simp: child_zero_def clear_frame_def split: option.splits)

lemma clearChildLoop_Path:
  "Path (childCounters h) p as None \<Longrightarrow> list_all (child_ok h) as \<Longrightarrow>
   \<exists>h'. clearChildLoop h p = Some h' \<and> clear_frame h h' \<and> classCounters h' = classCounters h \<and>
        list_all (child_zero h') as"
proof (induction as arbitrary: h p)
  case Nil
  then show ?case by (subst clearChildLoop.simps) (simp add: clear_frame_refl)
next
  case (Cons a as)
  from Cons.prems obtain c where c: "p = Some a" "childCounters h a = Some c"
    "Path (childCounters h) (next c) as None"
    by (auto split: option.splits)
  from Cons.prems c have ok: "counter_ok h (counter c)" by (simp add: child_ok_def)
  from clearObjectCounter_frame [OF ok] obtain h1 where
    h1: "clearObjectCounter h (counter c) = Some h1" "clear_frame h h1" "reads_zero h1 (counter c)"
    by blast
  have cc1: "classCounters h1 = classCounters h"
    using h1(1) by (auto simp: clearObjectCounter_def split: option.splits)
  have ch1: "childCounters h1 = childCounters h" using h1(2) by (simp add: clear_frame_def)
  have "list_all (child_ok h1) as"
    using Cons.prems(2) clear_frame_child_ok [OF h1(2)] by (simp add: list_all_iff)
  with Cons.IH [of h1 "next c"] c(3) ch1 obtain h' where
    h': "clearChildLoop h1 (next c) = Some h'" "clear_frame h1 h'" "classCounters h' = classCounters h1"
        "list_all (child_zero h') as"
    by auto
  have "child_zero h1 a" using c(2) ch1 h1(3) by (simp add: child_zero_def)
  then have "child_zero h' a" using clear_frame_child_zero [OF h'(2)] by blast
  moreover have "clearChildLoop h p = Some h'"
    by (subst clearChildLoop.simps) (simp add: c h1 h')
  ultimately show ?case
    using h' cc1 clear_frame_trans [OF h1(2) h'(2)] by simp
qed

lemma clear_frame_class:
  assumes "clear_frame h h'" and "classCounters h p = Some cc"
  shows "\<exists>cc'. classCounters h' p = Some cc' \<and> root_counter cc' = root_counter cc \<and>
           child cc' = child cc \<and> spinlock cc' = spinlock cc \<and>
           (offsets cc = None \<longrightarrow> offsets cc' = None) \<and>
           (offsetCount cc = - 1 \<longrightarrow> offsetCount cc' = - 1)"
proof -
  from assms(1) have "classCounters h' p = classCounters h p \<or>
      classCounters h' p = map_option reset_offsets (classCounters h p)"
    by (simp add: clear_frame_def)
  then show ?thesis using assms(2) by (auto simp: reset_offsets_def)
qed

lemma clear_frame_class_ok:
  assumes "clear_frame h h'" and "class_ok h p"
  shows "class_ok h' p"
proof -
  from assms(2) obtain cc as where cc: "classCounters h p = Some cc" "counter_ok h (root_counter cc)"
    "child_list (childCounters h) (child cc) = Some as" "list_all (child_ok h) as"
    by (auto simp: class_ok_def split: option.splits)
  from clear_frame_class [OF assms(1) cc(1)] obtain cc' where
    cc': "classCounters h' p = Some cc'" "root_counter cc' = root_counter cc" "child cc' = child cc"
    by blast
  have ch: "childCounters h' = childCounters h" using assms(1) by (simp add: clear_frame_def)
  have "list_all (child_ok h') as"
    using cc(4) clear_frame_child_ok [OF assms(1)] by (simp add: list_all_iff)
  then show ?thesis
    using cc cc' ch clear_frame_counter_ok [OF assms(1)] by (simp add: class_ok_def)
qed

lemma clear_frame_class_cleared:
  assumes "clear_frame h h'" and "class_cleared h p"
  shows "class_cleared h' p"
proof -
  from assms(2) obtain cc as where cc: "classCounters h p = Some cc" "reads_zero h (root_counter cc)"
    "offsets cc = None"
    "child_list (childCounters h) (child cc) = Some as" "list_all (child_zero h) as"
    by (auto simp: class_cleared_def split: option.splits)
  from clear_frame_class [OF assms(1) cc(1)] cc(3) obtain cc' where
    cc': "classCounters h' p = Some cc'" "root_counter cc' = root_counter cc" "child cc' = child cc"
         "offsets cc' = None"
    by blast
  have ch: "childCounters h' = childCounters h" using assms(1) by (simp add: clear_frame_def)
  have "list_all (child_zero h') as"
    using cc(5) clear_frame_child_zero [OF assms(1)] by (simp add: list_all_iff)
  then show ?thesis
    using cc cc' ch clear_frame_reads_zero [OF assms(1)] by (simp add: class_cleared_def)
qed

lemma clear_frame_offsetCount_reset:
  assumes "clear_frame h h'" and "offsetCount_reset h p"
  shows "offsetCount_reset h' p"
proof -
  from assms(2) obtain cc where cc: "classCounters h p = Some cc" "offsetCount cc = - 1"
    by (auto simp: offsetCount_reset_def split: option.splits)
  from clear_frame_class [OF assms(1) cc(1)] cc(2) show ?thesis
    by (auto simp: offsetCount_reset_def)
qed

lemma clearChildClassCounters_ok:
  assumes "class_ok h p"
  shows "\<exists>h'. clearChildClassCounters h (Some p) = Some h' \<and> clear_frame h h' \<and>
           classCounters h' = classCounters h \<and>
           (\<forall>cc. classCounters h p = Some cc \<longrightarrow> offsets cc = None \<longrightarrow> class_cleared h' p)"
proof -
  from assms obtain cc as where cc: "classCounters h p = Some cc" "counter_ok h (root_counter cc)"
    "child_list (childCounters h) (child cc) = Some as" "list_all (child_ok h) as"
    by (auto simp: class_ok_def split: option.splits)
  from clearChildLoop_Path [OF child_list_Path [OF cc(3)] cc(4)] obtain h1 where
    h1: "clearChildLoop h (child cc) = Some h1" "clear_frame h h1" "classCounters h1 = classCounters h"
      "list_all (child_zero h1) as"
    by blast
  have "counter_ok h1 (root_counter cc)" using cc(2) clear_frame_counter_ok [OF h1(2)] by simp
  from clearObjectCounter_frame [OF this] obtain h' where
    h': "clearObjectCounter h1 (root_counter cc) = Some h'" "clear_frame h1 h'"
      "reads_zero h' (root_counter cc)"
    by blast
  have cc': "classCounters h' = classCounters h"
    using h'(1) h1(3) by (auto simp: clearObjectCounter_def split: option.splits)
  have ch: "childCounters h' = childCounters h"
    using h1(2) h'(2) by (simp add: clear_frame_def)
  have z: "list_all (child_zero h') as"
    using h1(4) clear_frame_child_zero [OF h'(2)] by (simp add: list_all_iff)
  have "clearChildClassCounters h (Some p) = Some h'"
    by (simp add: clearChildClassCounters_def cc h1 h')
  moreover have "clear_frame h h'" using clear_frame_trans [OF h1(2) h'(2)] .
  moreover have "offsets cc = None \<Longrightarrow> class_cleared h' p"
    using cc cc' ch z h'(3) by (simp add: class_cleared_def)
  ultimately show ?thesis using cc cc' by auto
qed

lemma reset_frame:
  assumes "classCounters h p = Some cc"
  shows "clear_frame h (h\<lparr>classCounters := (classCounters h)(p \<mapsto> cc\<lparr>offsets := None, offsetCount := - 1\<rparr>)\<rparr>)"
  using assms by (auto simp: clear_frame_def reset_offsets_def)

lemma clear_loop_ok:
  "list_all (\<lambda>e. case snd e of None \<Rightarrow> True | Some p \<Rightarrow> class_ok h p) es \<Longrightarrow>
   \<exists>h'. clear_loop es h = Some h' \<and> clear_frame h h' \<and>
        list_all (\<lambda>e. case snd e of None \<Rightarrow> True
                       | Some p \<Rightarrow> class_cleared h' p \<and> offsetCount_reset h' p) es"
proof (induction es arbitrary: h)
  case Nil
  then show ?case by (simp add: clear_frame_refl)
next
  case (Cons e es)
  obtain k v where e: "e = (k, v)" by (cases e)
  show ?case
  proof (cases v)
    case None
    from Cons.prems have "list_all (\<lambda>e. case snd e of None \<Rightarrow> True | Some p \<Rightarrow> class_ok h p) es"
      by simp
    from Cons.IH [OF this] show ?thesis using e None by auto
  next
    case (Some p)
    with Cons.prems e have ok: "class_ok h p" by simp
    then obtain cc where cc: "classCounters h p = Some cc"
      by (auto simp: class_ok_def split: option.splits)
    define h0 where "h0 = h\<lparr>classCounters := (classCounters h)(p \<mapsto> cc\<lparr>offsets := None, offsetCount := - 1\<rparr>)\<rparr>"
    have f0: "clear_frame h h0" unfolding h0_def by (rule reset_frame [OF cc])
    have cc0: "classCounters h0 p = Some (cc\<lparr>offsets := None, offsetCount := - 1\<rparr>)"
      by (simp add: h0_def)
    from clearChildClassCounters_ok [OF clear_frame_class_ok [OF f0 ok]] cc0 obtain h1 where
      h1: "clearChildClassCounters h0 (Some p) = Some h1" "clear_frame h0 h1"
        "classCounters h1 = classCounters h0" "class_cleared h1 p"
      by auto
    have r1: "offsetCount_reset h1 p" using h1(3) cc0 by (simp add: offsetCount_reset_def)
    have f1: "clear_frame h h1" using clear_frame_trans [OF f0 h1(2)] .
    have "list_all (\<lambda>e. case snd e of None \<Rightarrow> True | Some p \<Rightarrow> class_ok h1 p) es"
      using Cons.prems clear_frame_class_ok [OF f1]
      by (auto simp: list_all_iff split: option.splits)
    from Cons.IH [OF this] obtain h' where
      h': "clear_loop es h1 = Some h'" "clear_frame h1 h'"
        "list_all (\<lambda>e. case snd e of None \<Rightarrow> True
                       | Some p \<Rightarrow> class_cleared h' p \<and> offsetCount_reset h' p) es"
      by blast
    have "clear_loop (e # es) h = Some h'"
      using e Some cc h1(1) h'(1) by (simp add: h0_def)
    moreover have "class_cleared h' p" "offsetCount_reset h' p"
      using clear_frame_class_cleared [OF h'(2) h1(4)] clear_frame_offsetCount_reset [OF h'(2) r1]
      by simp_all
    ultimately show ?thesis
      using h'(3) e Some clear_frame_trans [OF f1 h'(2)] by simp
  qed
qed

lemma clearObjectCounter_returns_frame:
  "clearObjectCounter h ctr = Some h' \<Longrightarrow> clear_frame h h' \<and> classCounters h' = classCounters h"
  by (auto simp: clearObjectCounter_def clear_frame_def zero_counter_def
      split: option.splits if_splits)

lemma clearChildLoop_returns_frame:
  assumes "clearChildLoop h p = Some h'"
  shows "clear_frame h h' \<and> classCounters h' = classCounters h"
proof (rule clearChildLoop.raw_induct
    [where P = "\<lambda>h p h'. clear_frame h h' \<and> classCounters h' = classCounters h", OF _ assms])
  fix loop :: "heap \<Rightarrow> addr option \<Rightarrow> heap option" and h p h'
  assume IH: "\<And>h p y. loop h p = Some y \<Longrightarrow> clear_frame h y \<and> classCounters y = classCounters h"
  assume step: "(case p of None \<Rightarrow> Some h
      | Some a \<Rightarrow>
          (case childCounters h a of None \<Rightarrow> None
           | Some c \<Rightarrow>
               (case clearObjectCounter h (counter c) of None \<Rightarrow> None
                | Some h2 \<Rightarrow> loop h2 (next c)))) = Some h'"
  show "clear_frame h h' \<and> classCounters h' = classCounters h"
  proof (cases p)
    case None
    with step show ?thesis by (simp add: clear_frame_refl)
  next
    case (Some a)
    with step obtain c h1 where c: "childCounters h a = Some c"
      "clearObjectCounter h (counter c) = Some h1" "loop h1 (next c) = Some h'"
      by (auto split: option.splits)
    from clearObjectCounter_returns_frame [OF c(2)]
    have 1: "clear_frame h h1" "classCounters h1 = classCounters h" by simp_all
    from IH [OF c(3)] have 2: "clear_frame h1 h'" "classCounters h' = classCounters h1" by simp_all
    from clear_frame_trans [OF 1(1) 2(1)] 1(2) 2(2) show ?thesis by simp
  qed
qed

lemma clearChildClassCounters_returns_frame:
  assumes "clearChildClassCounters h ctr = Some h'"
  shows "clear_frame h h' \<and> classCounters h' = classCounters h"
proof -
  from assms obtain p cc h1 where c: "ctr = Some p" "classCounters h p = Some cc"
    "clearChildLoop h (child cc) = Some h1" "clearObjectCounter h1 (root_counter cc) = Some h'"
    by (auto simp: clearChildClassCounters_def split: option.splits)
  from clearChildLoop_returns_frame [OF c(3)]
  have 1: "clear_frame h h1" "classCounters h1 = classCounters h" by simp_all
  from clearObjectCounter_returns_frame [OF c(4)]
  have 2: "clear_frame h1 h'" "classCounters h' = classCounters h1" by simp_all
  from clear_frame_trans [OF 1(1) 2(1)] 1(2) 2(2) show ?thesis by simp
qed

lemma clear_loop_returns_frame: "clear_loop es h = Some h' \<Longrightarrow> clear_frame h h'"
proof (induction es arbitrary: h)
  case Nil
  then show ?case by (simp add: clear_frame_refl)
next
  case (Cons e es)
  obtain k v where e: "e = (k, v)" by (cases e)
  show ?case
  proof (cases v)
    case None
    with Cons e show ?thesis by simp
  next
    case (Some p)
    with Cons.prems e obtain cc h1 where cc: "classCounters h p = Some cc"
      "clearChildClassCounters
         (h\<lparr>classCounters := (classCounters h)(p \<mapsto> cc\<lparr>offsets := None, offsetCount := - 1\<rparr>)\<rparr>)
         (Some p) = Some h1" "clear_loop es h1 = Some h'"
      by (auto split: option.splits)
    from reset_frame [OF cc(1)] clearChildClassCounters_returns_frame [OF cc(2)] Cons.IH [OF cc(3)]
    show ?thesis using clear_frame_trans by blast
  qed
qed

lemma clear_frame_children_of: "clear_frame h h' \<Longrightarrow> children_of h' k = children_of h k"
proof -
  assume f: "clear_frame h h'"
  then have ch: "childCounters h' = childCounters h" by (simp add: clear_frame_def)
  from f have "classCounters h' k = classCounters h k \<or>
      classCounters h' k = map_option reset_offsets (classCounters h k)"
    by (simp add: clear_frame_def)
  then show ?thesis
    by (cases "classCounters h k") (auto simp: children_of_def ch reset_offsets_def)
qed

lemma ex_container_ok: "container_ok ex_container ex_heap"
  by (simp add: container_ok_def on_classes_def class_ok_def counter_ok_def child_ok_def
      ex_container_def ex_heap_def)


section \<open>Forced clear\<close>

text \<open>
  Claim C4.  On a container whose class counters are valid, \<open>clear\<close> with
  \<open>isForce = true\<close> returns, and afterwards every class counter stored in
  \<open>counterMap\<close> has its own counter at \<open>(0, 0)\<close>, every node of its child list has its
  counter at \<open>(0, 0)\<close>, its \<open>offsets\<close> pointer is \<open>NULL\<close> and its \<open>offsetCount\<close> is
  \<open>-1\<close>; the flag \<open>isCleared\<close> is set and the map is the same.
\<close>

theorem clear_force_zeroes:
  assumes "container_ok this h"
  shows "\<exists>this' h'. clear True (this, h) = Some (this', h') \<and> isCleared this' \<and>
           counterMap this' = counterMap this \<and>
           on_classes (\<lambda>p. class_cleared h' p \<and> offsetCount_reset h' p) this'"
proof -
  from assms clear_loop_ok [of h "counterMap this"] obtain h' where
    "clear_loop (counterMap this) h = Some h'"
    "list_all (\<lambda>e. case snd e of None \<Rightarrow> True
                    | Some p \<Rightarrow> class_cleared h' p \<and> offsetCount_reset h' p) (counterMap this)"
    by (auto simp: container_ok_def on_classes_def)
  then show ?thesis by (simp add: clear_def on_classes_def)
qed

theorem clear_force_zeroes_witness:
  "container_ok ex_container ex_heap \<and>
   (\<exists>this' h'. clear True (ex_container, ex_heap) = Some (this', h') \<and> isCleared this' \<and>
      counterMap this' = counterMap ex_container \<and>
      on_classes (\<lambda>p. class_cleared h' p \<and> offsetCount_reset h' p) this')"
  using clear_force_zeroes [OF ex_container_ok] ex_container_ok by blast

section \<open>Unforced clear\<close>

text \<open>
  Claim C9.  \<open>clear\<close> with \<open>isForce = false\<close> on a container whose flag \<open>isCleared\<close>
  is set returns the state as it is.  On a valid container the call returns, and
  whenever it returns, a second call right after it returns the state of the first
  unchanged: after the first call nothing is written.
\<close>

theorem clear_unforced_idempotent:
  "(isCleared this \<longrightarrow> clear False (this, h) = Some (this, h)) \<and>
   (container_ok this h \<longrightarrow> (\<exists>s'. clear False (this, h) = Some s' \<and> clear False s' = Some s')) \<and>
   (\<forall>s'. clear False (this, h) = Some s' \<longrightarrow> clear False s' = Some s')"
proof -
  have twice: "clear False s' = Some s'" if c: "clear False (this, h) = Some s'" for s'
  proof (cases "isCleared this")
    case True
    with c show ?thesis by (auto simp: clear_def)
  next
    case False
    with c obtain h' where "s' = (this\<lparr>isCleared := True\<rparr>, h')"
      by (auto simp: clear_def split: option.splits)
    then show ?thesis by (simp add: clear_def)
  qed
  have "\<exists>s'. clear False (this, h) = Some s'" if "container_ok this h"
    using that clear_loop_ok [of h "counterMap this"]
    by (auto simp: clear_def container_ok_def on_classes_def)
  moreover have "isCleared this \<Longrightarrow> clear False (this, h) = Some (this, h)"
    by (simp add: clear_def)
  ultimately show ?thesis using twice by blast
qed

theorem clear_unforced_idempotent_witness:
  "isCleared ex_container_cleared \<and>
   clear False (ex_container_cleared, ex_heap_zero) = Some (ex_container_cleared, ex_heap_zero) \<and>
   container_ok ex_container ex_heap \<and>
   (\<exists>s'. clear False (ex_container, ex_heap) = Some s' \<and> clear False s' = Some s')"
proof -
  have c: "isCleared ex_container_cleared" by (simp add: ex_container_cleared_def)
  from clear_unforced_idempotent [of ex_container_cleared ex_heap_zero] c
    clear_unforced_idempotent [of ex_container ex_heap] ex_container_ok
  show ?thesis by blast
qed

section \<open>The frame of clear\<close>

text \<open>
  Claim C10.  For both values of \<open>isForce\<close>: \<open>clear\<close> returns on a valid container,
  and whenever it returns, the store of child nodes is the same (so every
  \<open>callCount\<close> and every \<open>next\<close> pointer is), the child list of every class
  counter is the same list, the header and the map are the same, the flag
  \<open>isCleared\<close> is set, and the rest of the state differs at most as \<open>clear_frame\<close>
  allows: counters set to \<open>(0, 0)\<close>, and \<open>offsets\<close> set to \<open>NULL\<close> with \<open>offsetCount\<close>
  set to \<open>-1\<close>.
\<close>

theorem clear_modifies_only:
  "(container_ok this h \<longrightarrow> (\<exists>s'. clear isForce (this, h) = Some s')) \<and>
   (\<forall>this' h'. clear isForce (this, h) = Some (this', h') \<longrightarrow>
      childCounters h' = childCounters h \<and> (\<forall>k. children_of h' k = children_of h k) \<and>
      clear_frame h h' \<and> header this' = header this \<and> counterMap this' = counterMap this \<and>
      isCleared this')"
proof -
  have "\<exists>s'. clear isForce (this, h) = Some s'" if "container_ok this h"
    using that clear_loop_ok [of h "counterMap this"]
    by (auto simp: clear_def container_ok_def on_classes_def)
  moreover have "childCounters h' = childCounters h \<and> (\<forall>k. children_of h' k = children_of h k) \<and>
      clear_frame h h' \<and> header this' = header this \<and> counterMap this' = counterMap this \<and>
      isCleared this'" if c: "clear isForce (this, h) = Some (this', h')" for this' h'
  proof -
    from c have f: "clear_frame h h'"
      using clear_loop_returns_frame [of "counterMap this" h h']
      by (auto simp: clear_def clear_frame_refl split: if_splits option.splits)
    from c have "header this' = header this \<and> counterMap this' = counterMap this \<and> isCleared this'"
      by (auto simp: clear_def split: if_splits option.splits)
    with f clear_frame_children_of [OF f] show ?thesis by (simp add: clear_frame_def)
  qed
  ultimately show ?thesis by blast
qed

theorem clear_modifies_only_witness:
  "container_ok ex_container ex_heap \<and>
   (\<exists>this' h'. clear True (ex_container, ex_heap) = Some (this', h') \<and>
      childCounters h' = childCounters ex_heap \<and>
      (\<forall>k. children_of h' k = children_of ex_heap k) \<and>
      clear_frame ex_heap h' \<and> header this' = header ex_container \<and>
      counterMap this' = counterMap ex_container \<and> isCleared this')"
proof -
  from clear_modifies_only [of ex_container ex_heap True] ex_container_ok
  obtain this' h' where c: "clear True (ex_container, ex_heap) = Some (this', h')" by auto
  with clear_modifies_only [of ex_container ex_heap True] ex_container_ok
  show ?thesis by blast
qed

section \<open>Relocation in the class container\<close>

lemma updateClass_same_key:
  "findClass_reg p (fst (updateClass p p (this, h))) = None"
  by (simp add: updateClass_def findClass_reg_def Let_def)

text \<open>
  Claim C8.  When \<open>findClass\<close> of the class container returns the record \<open>K\<close> for
  the oop \<open>oldKlassOop\<close> (as it does after \<open>K\<close> was registered under it), and
  \<open>newKlassOop\<close> is another oop, then after \<open>updateClass oldKlassOop newKlassOop\<close>
  \<open>findClass\<close> returns \<open>K\<close> for the new oop and \<open>NULL\<close> for the old one, and the
  stores are the same: the record at \<open>K\<close>, with its flag \<open>isRemoved\<close>, is what it
  was, set or not.
\<close>

theorem updateClass_relocates:
  assumes "oldKlassOop \<noteq> newKlassOop"
    and "findClass_reg oldKlassOop this = Some K"
  shows "findClass_reg newKlassOop (fst (updateClass oldKlassOop newKlassOop (this, h))) = Some K \<and>
         findClass_reg oldKlassOop (fst (updateClass oldKlassOop newKlassOop (this, h))) = None \<and>
         snd (updateClass oldKlassOop newKlassOop (this, h)) = h"
  using assms
  by (auto simp: updateClass_def findClass_reg_def subscript_def Let_def split: option.splits)

theorem updateClass_relocates_witness:
  "Some 0x1000 \<noteq> Some (0x2000 :: addr) \<and>
   findClass_reg (Some 0x1000) ex_registry = Some 50 \<and>
   map_option isRemoved (objDatas ex_heap_unloaded 50) = Some True \<and>
   findClass_reg (Some 0x2000)
     (fst (updateClass (Some 0x1000) (Some 0x2000) (ex_registry, ex_heap_unloaded))) = Some 50 \<and>
   findClass_reg (Some 0x1000)
     (fst (updateClass (Some 0x1000) (Some 0x2000) (ex_registry, ex_heap_unloaded))) = None \<and>
   map_option isRemoved
     (objDatas (snd (updateClass (Some 0x1000) (Some 0x2000) (ex_registry, ex_heap_unloaded))) 50) =
     Some True"
proof -
  have a: "Some 0x1000 \<noteq> Some (0x2000 :: addr)" by simp
  have b: "findClass_reg (Some 0x1000) ex_registry = Some 50"
    by (simp add: findClass_reg_def ex_registry_def)
  have c: "map_option isRemoved (objDatas ex_heap_unloaded 50) = Some True"
    by (simp add: ex_heap_unloaded_def ex_heap_def ex_objData_def)
  from updateClass_relocates [OF a b, of ex_heap_unloaded] a b c show ?thesis by simp
qed

section \<open>The GC cause in the header\<close>

lemma c_str_replicate: "c \<noteq> NUL \<Longrightarrow> c_str (replicate n c) = replicate n c"
  by (simp add: c_str_def)

lemma strcpy_fits:
  "strlen src < length dst \<Longrightarrow>
   strcpy dst src = Inr (c_str src @ NUL # drop (Suc (strlen src)) dst)"
  by (simp add: strcpy_def strlen_def Let_def)

lemma strcpy_overruns:
  "length dst \<le> strlen src \<Longrightarrow> strcpy dst src = Inl (WritePastEnd (Suc (strlen src)) (length dst))"
  by (simp add: strcpy_def strlen_def Let_def)

text \<open>
  Claim C2, at the input that fails: a GC cause of 80 characters, with the header
  cause equal to \<open>GC\<close>.  \<open>strcpy\<close> stores 81 bytes from the start of the 80-byte field
  \<open>gcCause\<close>; nothing is truncated.
\<close>

theorem setJvmInfo_long_cause:
  "setJvmInfo 2 (Some (ex_info\<lparr>getGCCause := replicate 80 CHR ''A''\<rparr>)) ex_container =
     Inl (WritePastEnd 81 80)"
  by (simp add: setJvmInfo_def ex_container_def ex_header_def strcpy_def c_str_def NUL_def Let_def)

lemma setJvmInfo_short_cause:
  "setJvmInfo 2 (Some ex_info) ex_container =
     Inr (ex_container\<lparr>header := ex_header\<lparr>
            gcCause := ''Allocation Failure'' @ replicate 62 NUL, gcCauseLen := 18,
            gcWorktime := 7, FGCCount := 42, YGCCount := 3, newAreaSize := 100,
            oldAreaSize := 200, metaspaceUsage := 12345678, metaspaceCapacity := 20000000\<rparr>\<rparr>)"
  by (simp add: setJvmInfo_def ex_container_def ex_header_def ex_info_def strcpy_def c_str_def
      strlen_def NUL_def Let_def numeral_eq_Suc)

section \<open>Finding a class counter after pushes\<close>

lemma findClass_update:
  "findClass r (this\<lparr>counterMap := AList.update r' v (counterMap this)\<rparr>) =
     (if r' = r then v else findClass r this)"
  by (simp add: findClass_def update_conv')

lemma pushNewClass_findClass:
  assumes "pushNewClass r' ca cb ok (this, h) = (res, this', h')"
  shows "findClass r this' =
           (case res of None \<Rightarrow> findClass r this
            | Some p \<Rightarrow> if r' = r then Some p else findClass r this)"
  using assms
  by (auto simp: pushNewClass_def findClass_update split: option.splits if_splits)

lemma run_class_calls_latest:
  "findClass r (fst (snd (run_class_calls cs s))) =
     latest_push r (findClass r (fst s)) cs (fst (run_class_calls cs s))"
proof (induction cs arbitrary: s)
  case Nil
  then show ?case by simp
next
  case (Cons c cs)
  obtain this h where s: "s = (this, h)" by (cases s)
  show ?case
  proof (cases c)
    case (PushNewClass r' ca cb ok)
    obtain res this' h' where p: "pushNewClass r' ca cb ok (this, h) = (res, this', h')"
      by (cases "pushNewClass r' ca cb ok (this, h)")
    from pushNewClass_findClass [OF p, of r] Cons.IH [of "(this', h')"] show ?thesis
      using s PushNewClass p
      by (cases res) (auto split: prod.splits)
  next
    case (FindClass r')
    with Cons.IH [of s] show ?thesis by (auto split: prod.splits)
  qed
qed

text \<open>
  Claim C1 as amended.  After any sequence of \<open>pushNewClass\<close> and \<open>findClass\<close>
  calls on a container, \<open>findClass r\<close> returns the pointer that the latest
  successful \<open>pushNewClass r\<close> of the sequence returned, and what it returned before
  the sequence when there is none (\<open>NULL\<close> for a new container); \<open>findClass\<close> leaves
  the state as it is.
\<close>

theorem findClass_latest_push:
  "findClass r (fst (snd (run_class_calls cs s))) =
     latest_push r (findClass r (fst s)) cs (fst (run_class_calls cs s)) \<and>
   snd (run_class_call (FindClass r) s) = s \<and>
   findClass r (TSnapShotContainer_new collectRefTree bom uninit) = None"
  using run_class_calls_latest [of r cs s]
  by (simp add: findClass_def TSnapShotContainer_new_def)

theorem findClass_latest_push_witness:
  "findClass (Some 50)
     (fst (snd (run_class_calls
        [PushNewClass (Some 50) (Some 11) (Some 24) True,
         PushNewClass (Some 51) (Some 13) (Some 26) True,
         PushNewClass (Some 50) None None True,
         PushNewClass (Some 50) (Some 12) (Some 25) True,
         FindClass (Some 50)]
        (TSnapShotContainer_new False 1 ex_header, ex_heap)))) = Some 12"
  using findClass_latest_push [of "Some 50"
      "[PushNewClass (Some 50) (Some 11) (Some 24) True,
        PushNewClass (Some 51) (Some 13) (Some 26) True,
        PushNewClass (Some 50) None None True,
        PushNewClass (Some 50) (Some 12) (Some 25) True,
        FindClass (Some 50)]"
      "(TSnapShotContainer_new False 1 ex_header, ex_heap)"]
  by (simp add: pushNewClass_def findClass_def TSnapShotContainer_new_def)

text \<open>
  Claim C1 as stated fails: two pushes of the record 50 into a new container return
  the two allocations 11 and 12, and \<open>findClass\<close> then returns 12, not the 11 that
  the first push returned; the class counter at 11 is still allocated.
\<close>

theorem findClass_stable_counterexample:
  "fst (run_class_calls
          [PushNewClass (Some 50) (Some 11) (Some 24) True,
           PushNewClass (Some 50) (Some 12) (Some 25) True,
           FindClass (Some 50)]
          (TSnapShotContainer_new False 1 ex_header, ex_heap)) = [Some 11, Some 12, Some 12] \<and>
   classCounters (snd (snd (run_class_calls
          [PushNewClass (Some 50) (Some 11) (Some 24) True,
           PushNewClass (Some 50) (Some 12) (Some 25) True,
           FindClass (Some 50)]
          (TSnapShotContainer_new False 1 ex_header, ex_heap)))) 11 \<noteq> None"
  by (simp add: pushNewClass_def findClass_def TSnapShotContainer_new_def ex_heap_def)

section \<open>The stock of containers\<close>

text \<open>
  Claim C3.  From an empty stock queue, with the allocations and the queue pushes
  succeeding: three calls of \<open>getInstance\<close> return three new containers \<open>a\<close>, \<open>b\<close>,
  \<open>c\<close>; releasing them in this order leaves the queue holding \<open>a\<close> and \<open>b\<close> and
  deallocates \<open>c\<close>; three further calls of \<open>getInstance\<close> return \<open>a\<close>, then \<open>b\<close>,
  then a container that \<open>new\<close> allocates at that moment.
\<close>

theorem stock_recycles:
  assumes "stockQueue s0 = Some []" and "distinct [a, b, c]" and "d \<noteq> a" and "d \<noteq> b"
  shows "\<exists>s1 s2 s3.
           getInstance_seq rt bom [Some (a, ua), Some (b, ub), Some (c, uc)] s0 =
             Some ([Some a, Some b, Some c], s1) \<and>
           releaseInstance_seq [(Some a, True), (Some b, True), (Some c, True)] s1 = Some s2 \<and>
           stockQueue s2 = Some [a, b] \<and>
           containers s2 a \<noteq> None \<and> containers s2 b \<noteq> None \<and> containers s2 c = None \<and>
           getInstance_seq rt bom [x, y, Some (d, ud)] s2 = Some ([Some a, Some b, Some d], s3) \<and>
           stockQueue s3 = Some [] \<and>
           containers s3 d = Some (TSnapShotContainer_new rt bom ud) \<and>
           containers s3 a = containers s2 a \<and> containers s3 b = containers s2 b"
  using assms
  by (simp add: getInstance_def releaseInstance_def delete_instance_def clear_def
      MAX_STOCK_COUNT_def TSnapShotContainer_new_def Let_def)

theorem stock_recycles_witness:
  "stockQueue ex_pool = Some [] \<and> distinct [1, 2, 3 :: addr] \<and> (3 :: addr) \<noteq> 1 \<and> (3 :: addr) \<noteq> 2 \<and>
   (\<exists>s1 s2 s3.
      getInstance_seq False 1 [Some (1, ex_header), Some (2, ex_header), Some (3, ex_header)] ex_pool =
        Some ([Some 1, Some 2, Some 3], s1) \<and>
      releaseInstance_seq [(Some 1, True), (Some 2, True), (Some 3, True)] s1 = Some s2 \<and>
      stockQueue s2 = Some [1, 2] \<and>
      containers s2 1 \<noteq> None \<and> containers s2 2 \<noteq> None \<and> containers s2 3 = None \<and>
      getInstance_seq False 1 [None, None, Some (3, ex_header)] s2 =
        Some ([Some 1, Some 2, Some 3], s3) \<and>
      stockQueue s3 = Some [] \<and>
      containers s3 3 = Some (TSnapShotContainer_new False 1 ex_header) \<and>
      containers s3 1 = containers s2 1 \<and> containers s3 2 = containers s2 2)"
proof -
  have q: "stockQueue ex_pool = Some []"
    by (simp add: ex_pool_def globalInitialize_def)
  have d: "distinct [1, 2, 3 :: addr]" "(3 :: addr) \<noteq> 1" "(3 :: addr) \<noteq> 2" by simp_all
  from stock_recycles [OF q d, of False 1 ex_header ex_header ex_header None None ex_header] q d
  show ?thesis by blast
qed

section \<open>Paths through the child nodes\<close>

lemma Path_append:
  "Path ch p (as @ bs) q \<longleftrightarrow> (\<exists>r. Path ch p as r \<and> Path ch r bs q)"
  by (induction as arbitrary: p) (auto split: option.splits)

lemma Path_next_cong:
  "(\<And>x. x \<in> set as \<Longrightarrow> map_option next (ch' x) = map_option next (ch x)) \<Longrightarrow>
   Path ch' p as q = Path ch p as q"
proof (induction as arbitrary: p)
  case Nil
  then show ?case by simp
next
  case (Cons a as)
  have "map_option next (ch' a) = map_option next (ch a)" using Cons.prems by simp
  moreover have "Path ch' r as q = Path ch r as q" for r
    using Cons.IH Cons.prems by simp
  ultimately show ?case
    by (cases "ch a"; cases "ch' a") auto
qed

lemma Path_unique: "Path ch p as None \<Longrightarrow> Path ch p bs None \<Longrightarrow> as = bs"
proof (induction as arbitrary: p bs)
  case Nil
  then show ?case by (cases bs) auto
next
  case (Cons a as)
  then show ?case by (cases bs) (auto split: option.splits)
qed

lemma Path_suffix: "Path ch p (us @ a # vs) q \<Longrightarrow> Path ch (Some a) (a # vs) q"
  by (auto simp: Path_append)

lemma Path_distinct: "Path ch p as None \<Longrightarrow> distinct as"
proof (induction as arbitrary: p)
  case Nil
  then show ?case by simp
next
  case (Cons a as)
  then obtain c where c: "p = Some a" "ch a = Some c" "Path ch (next c) as None"
    by (auto split: option.splits)
  have "a \<notin> set as"
  proof
    assume "a \<in> set as"
    then obtain us vs where as: "as = us @ a # vs" by (auto simp: in_set_conv_decomp)
    with c(3) have "Path ch (Some a) (a # vs) None" using Path_suffix by blast
    with Cons.prems c(1) have "a # as = a # vs" using Path_unique by blast
    with as show False by simp
  qed
  with Cons.IH [OF c(3)] show ?case by simp
qed

lemma Path_last_redirect:
  assumes "Path ch p (ws @ [m]) q" and "m \<notin> set ws" and "ch m = Some mc"
  shows "Path (ch(m \<mapsto> mc\<lparr>next := r\<rparr>)) p (ws @ [m]) r"
proof -
  from assms(1) have 1: "Path ch p ws (Some m)" by (auto simp: Path_append)
  have "Path (ch(m \<mapsto> mc\<lparr>next := r\<rparr>)) p ws (Some m) = Path ch p ws (Some m)"
    using assms(2) by (intro Path_next_cong) auto
  with 1 show ?thesis by (simp add: Path_append)
qed

lemma prevs_snoc: "prevs mp pv (us @ [u]) = (snd (prevs mp pv us), Some u)"
  by (induction us arbitrary: mp pv) auto

lemma child_searchable_node_oop: "child_searchable h a \<longleftrightarrow> node_oop h a \<noteq> None"
  by (auto simp: child_searchable_def node_oop_def split: option.splits)

lemma find_loop_step:
  assumes "childCounters h a = Some c" and "node_oop h a = Some o'"
  shows "find_loop h oop mp pv a =
           (if o' \<noteq> oop then (case next c of None \<Rightarrow> Some Miss
                                 | Some n \<Rightarrow> find_loop h oop pv (Some a) n)
            else Some (Hit mp pv a))"
  using assms
  by (subst find_loop.simps) (auto simp: node_oop_def split: option.splits)

lemma find_loop_miss:
  "Path (childCounters h) (Some a) (a # as) None \<Longrightarrow>
   list_all (child_searchable h) (a # as) \<Longrightarrow>
   list_all (\<lambda>x. node_oop h x \<noteq> Some oop) (a # as) \<Longrightarrow>
   find_loop h oop mp pv a = Some Miss"
proof (induction as arbitrary: a mp pv)
  case Nil
  then obtain c o' where "childCounters h a = Some c" "next c = None" "node_oop h a = Some o'" "o' \<noteq> oop"
    by (auto simp: child_searchable_node_oop split: option.splits)
  then show ?case by (simp add: find_loop_step)
next
  case (Cons b as)
  from Cons.prems obtain c o' where c: "childCounters h a = Some c" "next c = Some b"
    "node_oop h a = Some o'" "o' \<noteq> oop" "Path (childCounters h) (Some b) (b # as) None"
    by (auto simp: child_searchable_node_oop split: option.splits)
  from Cons.IH [OF c(5), of pv "Some a"] Cons.prems
  have "find_loop h oop pv (Some a) b = Some Miss" by simp
  with c show ?case by (simp add: find_loop_step)
qed

lemma find_loop_hit:
  "Path (childCounters h) (Some a) (us @ [t]) q \<Longrightarrow> a = hd (us @ [t]) \<Longrightarrow>
   list_all (child_searchable h) us \<Longrightarrow>
   list_all (\<lambda>x. node_oop h x \<noteq> Some oop) us \<Longrightarrow>
   node_oop h t = Some oop \<Longrightarrow>
   find_loop h oop mp pv a = Some (Hit (fst (prevs mp pv us)) (snd (prevs mp pv us)) t)"
proof (induction us arbitrary: a mp pv)
  case Nil
  then obtain c where "childCounters h t = Some c" by (auto split: option.splits)
  with Nil show ?case by (simp add: find_loop_step)
next
  case (Cons u us)
  from Cons.prems have a: "a = u" by simp
  from Cons.prems a obtain c o' where c: "childCounters h u = Some c"
    "node_oop h u = Some o'" "o' \<noteq> oop" "Path (childCounters h) (next c) (us @ [t]) q"
    by (auto simp: child_searchable_node_oop split: option.splits)
  from c(4) have n: "next c = Some (hd (us @ [t]))" by (cases us) auto
  from Cons.IH [of "hd (us @ [t])" pv "Some u"] c(4) n Cons.prems
  have "find_loop h oop pv (Some u) (hd (us @ [t])) =
          Some (Hit (fst (prevs pv (Some u) us)) (snd (prevs pv (Some u) us)) t)"
    by simp
  with c n a show ?case by (simp add: find_loop_step)
qed

lemma Path_Cons_next:
  "Path ch p (a # as) q \<longleftrightarrow>
     p = Some a \<and> (\<exists>n. map_option next (ch a) = Some n \<and> Path ch n as q)"
  by (cases "ch a") auto

lemma Path_swap:
  assumes path: "Path ch hd0 (ws @ p # t # vs) None"
    and t': "map_option next (ch' t) = Some (Some p)"
    and p': "map_option next (ch' p) = map_option next (ch t)"
    and m': "ws \<noteq> [] \<Longrightarrow> map_option next (ch' (last ws)) = Some (Some t)"
    and rest: "\<And>x. x \<noteq> t \<Longrightarrow> x \<noteq> p \<Longrightarrow> (ws \<noteq> [] \<Longrightarrow> x \<noteq> last ws) \<Longrightarrow>
                 map_option next (ch' x) = map_option next (ch x)"
  shows "Path ch' (if ws = [] then Some t else hd0) (ws @ t # p # vs) None"
proof -
  from Path_distinct [OF path] have d: "distinct (ws @ p # t # vs)" .
  from path obtain nt where
    ws: "Path ch hd0 ws (Some p)" and
    pn: "map_option next (ch p) = Some (Some t)" and
    tn: "map_option next (ch t) = Some nt" and
    vs: "Path ch nt vs None"
    by (auto simp: Path_append Path_Cons_next simp del: Path.simps(2))
  have "Path ch' nt vs None = Path ch nt vs None"
  proof (rule Path_next_cong)
    fix x assume "x \<in> set vs"
    with d have "x \<noteq> t" "x \<noteq> p" "ws \<noteq> [] \<Longrightarrow> x \<noteq> last ws"
      by (auto dest: last_in_set)
    then show "map_option next (ch' x) = map_option next (ch x)" by (rule rest)
  qed
  with vs have vs': "Path ch' nt vs None" by simp
  have tail: "Path ch' (Some t) (t # p # vs) None"
    using vs' t' p' tn by (auto simp: Path_Cons_next simp del: Path.simps(2))
  have front: "Path ch' (if ws = [] then Some t else hd0) ws (Some t)"
  proof (cases ws rule: rev_cases)
    case Nil
    then show ?thesis by simp
  next
    case (snoc ws' m)
    with ws have 1: "Path ch hd0 ws' (Some m)" by (auto simp: Path_append)
    have "Path ch' hd0 ws' (Some m) = Path ch hd0 ws' (Some m)"
    proof (rule Path_next_cong)
      fix x assume "x \<in> set ws'"
      with d snoc have "x \<noteq> t" "x \<noteq> p" "x \<noteq> last ws" by auto
      then show "map_option next (ch' x) = map_option next (ch x)" by (simp add: rest)
    qed
    with 1 have "Path ch' hd0 ws' (Some m)" by simp
    moreover have "map_option next (ch' m) = Some (Some t)" using m' snoc by simp
    ultimately show ?thesis using snoc
      by (auto simp: Path_append Path_Cons_next simp del: Path.simps(2))
  qed
  from front tail show ?thesis by (auto simp: Path_append)
qed

lemma prevs_None_snoc:
  "prevs None None (ws @ [p]) = ((if ws = [] then None else Some (last ws)), Some p)"
proof (cases ws rule: rev_cases)
  case Nil
  then show ?thesis by simp
next
  case (snoc ws' m)
  then show ?thesis
    using prevs_snoc [of None None "ws' @ [m]" p] prevs_snoc [of None None ws' m] by simp
qed

lemma Path_allocated: "Path ch p as q \<Longrightarrow> a \<in> set as \<Longrightarrow> ch a \<noteq> None"
  by (induction as arbitrary: p) (auto split: option.splits)

lemma lfu_frame_refl: "lfu_frame h h"
  by (simp add: lfu_frame_def)

lemma lfu_frame_trans: "lfu_frame h h1 \<Longrightarrow> lfu_frame h1 h2 \<Longrightarrow> lfu_frame h h2"
  by (simp add: lfu_frame_def)

lemma inc_callCount_frame:
  assumes "childCounters h t = Some ct"
  shows "inc_callCount t h =
           Some (h\<lparr>childCounters := (childCounters h)(t \<mapsto> ct\<lparr>callCount := callCount ct + 1\<rparr>)\<rparr>)"
    and "lfu_frame h (h\<lparr>childCounters := (childCounters h)(t \<mapsto> ct\<lparr>callCount := callCount ct + 1\<rparr>)\<rparr>)"
  using assms by (auto simp: inc_callCount_def lfu_frame_def)

lemma set_next_frame:
  assumes "childCounters h a = Some c"
  shows "set_next a v h = Some (h\<lparr>childCounters := (childCounters h)(a \<mapsto> c\<lparr>next := v\<rparr>)\<rparr>)"
    and "lfu_frame h (h\<lparr>childCounters := (childCounters h)(a \<mapsto> c\<lparr>next := v\<rparr>)\<rparr>)"
  using assms by (auto simp: set_next_def lfu_frame_def)

lemma set_child_frame:
  assumes "classCounters h k = Some cc"
  shows "set_child k v h = Some (h\<lparr>classCounters := (classCounters h)(k \<mapsto> cc\<lparr>child := v\<rparr>)\<rparr>)"
    and "lfu_frame h (h\<lparr>classCounters := (classCounters h)(k \<mapsto> cc\<lparr>child := v\<rparr>)\<rparr>)"
  using assms by (auto simp: set_child_def lfu_frame_def)

text \<open>A hit on the head of the list: only the call count changes.\<close>

lemma lfu_promote_head:
  assumes "childCounters h t = Some ct"
  shows "lfu_promote k mp None t h =
           Some (h\<lparr>childCounters := (childCounters h)(t \<mapsto> ct\<lparr>callCount := callCount ct + 1\<rparr>)\<rparr>)"
  using assms by (simp add: lfu_promote_def inc_callCount_def)

text \<open>A hit behind a node with a larger call count: only the call count changes.\<close>

lemma lfu_promote_stay:
  assumes "childCounters h t = Some ct" and "childCounters h p = Some cp" and "p \<noteq> t"
    and "\<not> callCount cp \<le> callCount ct + 1"
  shows "lfu_promote k mp (Some p) t h =
           Some (h\<lparr>childCounters := (childCounters h)(t \<mapsto> ct\<lparr>callCount := callCount ct + 1\<rparr>)\<rparr>)"
  using assms by (simp add: lfu_promote_def inc_callCount_def)

text \<open>A hit on the second node, promoted to the head.\<close>

lemma lfu_promote_to_head:
  assumes "childCounters h t = Some ct" and "childCounters h p = Some cp" and "p \<noteq> t"
    and "callCount cp \<le> callCount ct + 1" and "classCounters h k = Some cc"
  shows "lfu_promote k None (Some p) t h =
           Some (h\<lparr>childCounters := (childCounters h)
                      (p \<mapsto> cp\<lparr>next := next ct\<rparr>,
                       t \<mapsto> ct\<lparr>callCount := callCount ct + 1, next := Some p\<rparr>),
                    classCounters := (classCounters h)(k \<mapsto> cc\<lparr>child := Some t\<rparr>)\<rparr>)"
  using assms
  by (simp add: lfu_promote_def inc_callCount_def set_next_def set_child_def fun_upd_twist)

text \<open>A hit further down, swapped with its predecessor.\<close>

lemma lfu_promote_swap:
  assumes "childCounters h t = Some ct" and "childCounters h p = Some cp" and "p \<noteq> t"
    and "callCount cp \<le> callCount ct + 1"
    and "childCounters h m = Some cm" and "m \<noteq> t" and "m \<noteq> p"
  shows "lfu_promote k (Some m) (Some p) t h =
           Some (h\<lparr>childCounters := (childCounters h)
                      (p \<mapsto> cp\<lparr>next := next ct\<rparr>,
                       m \<mapsto> cm\<lparr>next := Some t\<rparr>,
                       t \<mapsto> ct\<lparr>callCount := callCount ct + 1, next := Some p\<rparr>)\<rparr>)"
  using assms
  by (simp add: lfu_promote_def inc_callCount_def set_next_def fun_upd_twist)

lemma Path_callCount_upd:
  assumes "Path (childCounters h) p as None" and "childCounters h t = Some ct"
  shows "Path ((childCounters h)(t \<mapsto> ct\<lparr>callCount := w\<rparr>)) p as None"
proof -
  have "Path ((childCounters h)(t \<mapsto> ct\<lparr>callCount := w\<rparr>)) p as None =
        Path (childCounters h) p as None"
    using assms(2) by (intro Path_next_cong) auto
  with assms(1) show ?thesis by simp
qed

text \<open>The outcome of the LFU step on a list \<open>us @ t # vs\<close> whose hit is \<open>t\<close>.\<close>

lemma lfu_promote_Path:
  assumes cc: "classCounters h k = Some cc"
    and path: "Path (childCounters h) (child cc) (us @ t # vs) None"
  shows "\<exists>h' cc' xs'.
           lfu_promote k (fst (prevs None None us)) (snd (prevs None None us)) t h = Some h' \<and>
           lfu_frame h h' \<and> classCounters h' k = Some cc' \<and>
           Path (childCounters h') (child cc') xs' None \<and> mset xs' = mset (us @ t # vs)"
proof -
  from Path_distinct [OF path] have d: "distinct (us @ t # vs)" .
  from Path_allocated [OF path, of t] obtain ct where ct: "childCounters h t = Some ct" by auto
  define h1 where
    "h1 = h\<lparr>childCounters := (childCounters h)(t \<mapsto> ct\<lparr>callCount := callCount ct + 1\<rparr>)\<rparr>"
  have f1: "lfu_frame h h1" unfolding h1_def by (rule inc_callCount_frame(2) [OF ct])
  have p1: "Path (childCounters h1) (child cc) (us @ t # vs) None"
    unfolding h1_def using Path_callCount_upd [OF path ct] by simp
  have c1: "classCounters h1 k = Some cc" by (simp add: h1_def cc)
  show ?thesis
  proof (cases us rule: rev_cases)
    case Nil
    then have "lfu_promote k (fst (prevs None None us)) (snd (prevs None None us)) t h = Some h1"
      using lfu_promote_head [OF ct] by (simp add: h1_def)
    with f1 p1 c1 show ?thesis by blast
  next
    case (snoc ws p)
    from Path_allocated [OF path, of p] snoc obtain cp where cp: "childCounters h p = Some cp"
      by auto
    from d snoc have pt: "p \<noteq> t" by auto
    have pv: "prevs None None us = ((if ws = [] then None else Some (last ws)), Some p)"
      using snoc prevs_None_snoc by simp
    show ?thesis
    proof (cases "callCount cp \<le> callCount ct + 1")
      case False
      from lfu_promote_stay [OF ct cp pt False]
      have "lfu_promote k (fst (prevs None None us)) (snd (prevs None None us)) t h = Some h1"
        by (simp add: pv h1_def)
      with f1 p1 c1 show ?thesis by blast
    next
      case True
      have path': "Path (childCounters h) (child cc) (ws @ p # t # vs) None"
        using path snoc by simp
      have ms: "mset (ws @ t # p # vs) = mset (us @ t # vs)" using snoc by simp
      show ?thesis
      proof (cases ws rule: rev_cases)
        case Nil
        define h' where
          "h' = h\<lparr>childCounters := (childCounters h)
                      (p \<mapsto> cp\<lparr>next := next ct\<rparr>,
                       t \<mapsto> ct\<lparr>callCount := callCount ct + 1, next := Some p\<rparr>),
                    classCounters := (classCounters h)(k \<mapsto> cc\<lparr>child := Some t\<rparr>)\<rparr>"
        from lfu_promote_to_head [OF ct cp pt True cc]
        have r: "lfu_promote k (fst (prevs None None us)) (snd (prevs None None us)) t h = Some h'"
          by (simp add: pv Nil h'_def)
        have f: "lfu_frame h h'"
          using ct cp cc by (auto simp: lfu_frame_def h'_def)
        have "Path (childCounters h') (if ws = [] then Some t else child cc) (ws @ t # p # vs) None"
          using path' ct cp pt Nil by (intro Path_swap [where ch = "childCounters h"]) (auto simp: h'_def)
        then have "Path (childCounters h') (Some t) (ws @ t # p # vs) None" using Nil by simp
        moreover have "classCounters h' k = Some (cc\<lparr>child := Some t\<rparr>)" by (simp add: h'_def)
        ultimately show ?thesis using r f ms by fastforce
      next
        case (snoc ws' m)
        from Path_allocated [OF path', of m] snoc obtain cm where cm: "childCounters h m = Some cm"
          by auto
        from d \<open>us = ws @ [p]\<close> snoc have mt: "m \<noteq> t" and mp: "m \<noteq> p" by auto
        define h' where
          "h' = h\<lparr>childCounters := (childCounters h)
                      (p \<mapsto> cp\<lparr>next := next ct\<rparr>,
                       m \<mapsto> cm\<lparr>next := Some t\<rparr>,
                       t \<mapsto> ct\<lparr>callCount := callCount ct + 1, next := Some p\<rparr>)\<rparr>"
        from lfu_promote_swap [OF ct cp pt True cm mt mp]
        have r: "lfu_promote k (fst (prevs None None us)) (snd (prevs None None us)) t h = Some h'"
          by (simp add: pv snoc h'_def)
        have f: "lfu_frame h h'"
          using ct cp cm by (auto simp: lfu_frame_def h'_def)
        have "Path (childCounters h') (if ws = [] then Some t else child cc) (ws @ t # p # vs) None"
          using path' ct cp cm pt mt mp snoc
          by (intro Path_swap [where ch = "childCounters h"]) (auto simp: h'_def)
        then have "Path (childCounters h') (child cc) (ws @ t # p # vs) None" using snoc by simp
        moreover have "classCounters h' k = Some cc" by (simp add: h'_def cc)
        ultimately show ?thesis using r f ms by fastforce
      qed
    qed
  qed
qed

lemma lfu_frame_child_searchable:
  assumes "lfu_frame h h'"
  shows "child_searchable h' a = child_searchable h a"
proof -
  from assms have od: "objDatas h' = objDatas h"
    and ch: "map_option objData (childCounters h' a) = map_option objData (childCounters h a)"
    by (simp_all add: lfu_frame_def)
  show ?thesis
  proof (cases "childCounters h a")
    case None
    with ch show ?thesis by (simp add: child_searchable_def)
  next
    case (Some c)
    with ch obtain c' where "childCounters h' a = Some c'" "objData c' = objData c" by auto
    with Some show ?thesis by (simp add: child_searchable_def od split: option.splits)
  qed
qed

lemma findChildClass_step:
  assumes cc: "classCounters h k = Some cc"
    and path: "Path (childCounters h) (child cc) xs None"
    and srch: "list_all (child_searchable h) xs"
  shows "\<exists>r h' cc' xs'.
           findChildClass (Some k) oop h = Some (r, h') \<and> lfu_frame h h' \<and>
           classCounters h' k = Some cc' \<and>
           Path (childCounters h') (child cc') xs' None \<and> mset xs' = mset xs"
proof (cases xs)
  case Nil
  with path have "child cc = None" by simp
  then have "findChildClass (Some k) oop h = Some (None, h)"
    by (simp add: findChildClass_def cc)
  with cc path show ?thesis using lfu_frame_refl by blast
next
  case (Cons a as)
  with path have hd: "child cc = Some a" by simp
  show ?thesis
  proof (cases "list_all (\<lambda>x. node_oop h x \<noteq> Some oop) xs")
    case True
    from find_loop_miss [of h a as oop None None] path srch True Cons hd
    have "find_loop h oop None None a = Some Miss" by simp
    then have "findChildClass (Some k) oop h = Some (None, h)"
      by (simp add: findChildClass_def cc hd)
    with cc path show ?thesis using lfu_frame_refl by blast
  next
    case False
    then have "\<exists>x\<in>set xs. node_oop h x = Some oop" by (auto simp: list_all_iff)
    from split_list_first_prop [OF this] obtain us t vs where
      xs: "xs = us @ t # vs" and t: "node_oop h t = Some oop"
      and us: "\<forall>u\<in>set us. node_oop h u \<noteq> Some oop"
      by blast
    have "Path (childCounters h) (Some a) ((us @ [t]) @ vs) None"
      using path xs hd by simp
    then obtain q where seg: "Path (childCounters h) (Some a) (us @ [t]) q"
      unfolding Path_append by blast
    have a: "a = hd (us @ [t])" using xs Cons by (cases us) auto
    have "find_loop h oop None None a =
            Some (Hit (fst (prevs None None us)) (snd (prevs None None us)) t)"
      using seg a srch us t xs
      by (intro find_loop_hit) (auto simp: list_all_iff)
    then have fc: "findChildClass (Some k) oop h =
        (case lfu_promote k (fst (prevs None None us)) (snd (prevs None None us)) t h of
           None \<Rightarrow> None | Some h' \<Rightarrow> Some (Some t, h'))"
      by (simp add: findChildClass_def cc hd)
    from lfu_promote_Path [OF cc, of us t vs] path xs obtain h' cc' xs' where
      "lfu_promote k (fst (prevs None None us)) (snd (prevs None None us)) t h = Some h'"
      "lfu_frame h h'" "classCounters h' k = Some cc'"
      "Path (childCounters h') (child cc') xs' None" "mset xs' = mset xs"
      by auto
    with fc show ?thesis by auto
  qed
qed

lemma children_of_Path:
  "children_of h k = Some xs \<longleftrightarrow>
     (\<exists>cc. classCounters h k = Some cc \<and> Path (childCounters h) (child cc) xs None)"
  by (auto simp: children_of_def child_list_iff split: option.splits)

lemma findChildClass_searchable:
  assumes "searchable_class h k" and "children_of h k = Some xs"
  shows "\<exists>r h' xs'.
           findChildClass (Some k) oop h = Some (r, h') \<and> lfu_frame h h' \<and>
           children_of h' k = Some xs' \<and> mset xs' = mset xs \<and> searchable_class h' k"
proof -
  from assms(2) obtain cc where cc: "classCounters h k = Some cc"
    and path: "Path (childCounters h) (child cc) xs None"
    by (auto simp: children_of_Path)
  from assms have srch: "list_all (child_searchable h) xs" by (simp add: searchable_class_def)
  from findChildClass_step [OF cc path srch, of oop] obtain r h' cc' xs' where
    s: "findChildClass (Some k) oop h = Some (r, h')" "lfu_frame h h'"
       "classCounters h' k = Some cc'" "Path (childCounters h') (child cc') xs' None"
       "mset xs' = mset xs"
    by blast
  have c: "children_of h' k = Some xs'" using s(3,4) by (auto simp: children_of_Path)
  have "set xs' = set xs" using s(5) by (rule mset_eq_setD)
  with srch have "list_all (child_searchable h') xs'"
    by (simp add: list_all_iff lfu_frame_child_searchable [OF s(2)])
  with c have "searchable_class h' k" by (simp add: searchable_class_def)
  with s c show ?thesis by blast
qed

lemma findChildClass_seq_searchable:
  "searchable_class h k \<Longrightarrow> children_of h k = Some xs \<Longrightarrow>
   \<exists>rs h' xs'.
     findChildClass_seq (Some k) ks h = Some (rs, h') \<and> length rs = length ks \<and>
     lfu_frame h h' \<and> children_of h' k = Some xs' \<and> mset xs' = mset xs \<and> searchable_class h' k"
proof (induction ks arbitrary: h xs)
  case Nil
  then show ?case using lfu_frame_refl by auto
next
  case (Cons oop ks)
  from findChildClass_searchable [OF Cons.prems, of oop] obtain r h1 xs1 where
    1: "findChildClass (Some k) oop h = Some (r, h1)" "lfu_frame h h1"
       "children_of h1 k = Some xs1" "mset xs1 = mset xs" "searchable_class h1 k"
    by blast
  from Cons.IH [OF 1(5) 1(3)] obtain rs h' xs' where
    2: "findChildClass_seq (Some k) ks h1 = Some (rs, h')" "length rs = length ks"
       "lfu_frame h1 h'" "children_of h' k = Some xs'" "mset xs' = mset xs1" "searchable_class h' k"
    by blast
  have "findChildClass_seq (Some k) (oop # ks) h = Some (r # rs, h')"
    using 1(1) 2(1) by simp
  moreover have "lfu_frame h h'" using lfu_frame_trans [OF 1(2) 2(3)] .
  ultimately show ?case using 1(4) 2 by auto
qed

section \<open>The nodes of a child list under promotion\<close>

text \<open>
  Claim C7.  For a class counter whose child list ends at \<open>NULL\<close> and whose nodes
  each have a class record, every sequence of \<open>findChildClass\<close> calls, whatever
  the ks searched for, returns; afterwards the child list again ends at \<open>NULL\<close>
  (there is no cycle), its nodes are the same multiset of addresses as before, and no
  address occurs twice.
\<close>

theorem findChildClass_keeps_nodes:
  assumes "searchable_class h k"
  shows "\<exists>rs h' xs xs'.
           findChildClass_seq (Some k) ks h = Some (rs, h') \<and>
           children_of h k = Some xs \<and> children_of h' k = Some xs' \<and>
           mset xs' = mset xs \<and> distinct xs'"
proof -
  from assms obtain xs where xs: "children_of h k = Some xs"
    by (auto simp: searchable_class_def split: option.splits)
  from findChildClass_seq_searchable [OF assms xs, of ks] obtain rs h' xs' where
    r: "findChildClass_seq (Some k) ks h = Some (rs, h')"
       "children_of h' k = Some xs'" "mset xs' = mset xs"
    by blast
  from r(2) have "distinct xs'" by (auto simp: children_of_Path dest: Path_distinct)
  with xs r show ?thesis by blast
qed

lemma ex_searchable: "searchable_class ex_heap 10"
  by (simp add: searchable_class_def children_of_def child_searchable_def ex_heap_def)

theorem findChildClass_keeps_nodes_witness:
  "searchable_class ex_heap 10 \<and>
   (\<exists>rs h' xs xs'.
      findChildClass_seq (Some 10) [Some 1002, Some 7, Some 1002, Some 1001] ex_heap = Some (rs, h') \<and>
      children_of ex_heap 10 = Some xs \<and> children_of h' 10 = Some xs' \<and>
      mset xs' = mset xs \<and> distinct xs')"
  using findChildClass_keeps_nodes [OF ex_searchable] ex_searchable by blast

lemma last_loop_unfold:
  "childCounters h a = Some c \<Longrightarrow>
   last_loop h a = (case next c of None \<Rightarrow> Some a | Some n \<Rightarrow> last_loop h n)"
  by (subst last_loop.simps) simp

lemma find_loop_unfold:
  "childCounters h a = Some c \<Longrightarrow> objData c = Some d \<Longrightarrow> objDatas h d = Some od \<Longrightarrow>
   find_loop h oop mp pv a =
     (if klassOop od \<noteq> oop then
        (case next c of None \<Rightarrow> Some Miss | Some n \<Rightarrow> find_loop h oop pv (Some a) n)
      else Some (Hit mp pv a))"
  by (subst find_loop.simps) simp

section \<open>Promotion of a child that is found again and again\<close>

text \<open>
  Claim C6.  On a class counter \<open>k\<close> without children, three \<open>pushNewChildClass\<close>
  calls for records with the oops \<open>o1\<close>, \<open>o2\<close>, \<open>o3\<close> (\<open>o3\<close> different from the other
  two) chain the new nodes \<open>n1\<close>, \<open>n2\<close>, \<open>n3\<close> in this order.  The first
  \<open>findChildClass\<close> for \<open>o3\<close> then returns \<open>n3\<close> and leaves the order \<open>n1, n3, n2\<close>, the
  second leaves \<open>n3, n1, n2\<close>, and after five calls the order is \<open>n3, n1, n2\<close>, the call
  count of \<open>n3\<close> is 5 and those of \<open>n1\<close> and \<open>n2\<close> are 0.
\<close>

theorem findChildClass_promotes:
  assumes "classCounters h0 k = Some cc0" and "child cc0 = None"
    and "distinct [n1, n2, n3]"
    and "objDatas h0 d1 = Some od1" and "objDatas h0 d2 = Some od2" and "objDatas h0 d3 = Some od3"
    and "klassOop od1 \<noteq> klassOop od3" and "klassOop od2 \<noteq> klassOop od3"
  shows "\<exists>h1 h2 h3 h5.
           pushNewChildClass_seq (Some k)
             [(Some d1, Some n1, Some b1), (Some d2, Some n2, Some b2), (Some d3, Some n3, Some b3)] h0 =
             Some ([Some n1, Some n2, Some n3], h1) \<and>
           children_of h1 k = Some [n1, n2, n3] \<and>
           findChildClass_seq (Some k) [klassOop od3] h1 = Some ([Some n3], h2) \<and>
           children_of h2 k = Some [n1, n3, n2] \<and>
           map_option callCount (childCounters h2 n3) = Some 1 \<and>
           findChildClass_seq (Some k) [klassOop od3, klassOop od3] h1 =
             Some ([Some n3, Some n3], h3) \<and>
           children_of h3 k = Some [n3, n1, n2] \<and>
           map_option callCount (childCounters h3 n3) = Some 2 \<and>
           findChildClass_seq (Some k)
             [klassOop od3, klassOop od3, klassOop od3, klassOop od3, klassOop od3] h1 =
             Some ([Some n3, Some n3, Some n3, Some n3, Some n3], h5) \<and>
           children_of h5 k = Some [n3, n1, n2] \<and>
           map_option callCount (childCounters h5 n3) = Some 5 \<and>
           map_option callCount (childCounters h5 n1) = Some 0 \<and>
           map_option callCount (childCounters h5 n2) = Some 0"
  using assms
  by (simp add: pushNewChildClass_def Let_def last_loop_unfold children_of_def
      findChildClass_def find_loop_unfold lfu_promote_def inc_callCount_def set_next_def
      set_child_def)

theorem findChildClass_promotes_witness:
  "classCounters ex_heap_start 10 =
     Some \<lparr>root_counter = Some 20, child = None, spinlock = 0, offsets = None, offsetCount = - 1\<rparr> \<and>
   distinct [30, 31, 32 :: addr] \<and>
   objDatas ex_heap_start 50 = Some (ex_objData (Some 1000)) \<and>
   objDatas ex_heap_start 51 = Some (ex_objData (Some 1001)) \<and>
   objDatas ex_heap_start 52 = Some (ex_objData (Some 1002)) \<and>
   klassOop (ex_objData (Some 1000)) \<noteq> klassOop (ex_objData (Some 1002)) \<and>
   klassOop (ex_objData (Some 1001)) \<noteq> klassOop (ex_objData (Some 1002)) \<and>
   (\<exists>h1 h5.
      pushNewChildClass_seq (Some 10)
        [(Some 50, Some 30, Some 21), (Some 51, Some 31, Some 22), (Some 52, Some 32, Some 23)]
        ex_heap_start = Some ([Some 30, Some 31, Some 32], h1) \<and>
      children_of h1 10 = Some [30, 31, 32] \<and>
      findChildClass_seq (Some 10) [Some 1002, Some 1002, Some 1002, Some 1002, Some 1002] h1 =
        Some ([Some 32, Some 32, Some 32, Some 32, Some 32], h5) \<and>
      children_of h5 10 = Some [32, 30, 31] \<and>
      map_option callCount (childCounters h5 32) = Some 5)"
proof -
  have a: "classCounters ex_heap_start 10 =
     Some \<lparr>root_counter = Some 20, child = None, spinlock = 0, offsets = None, offsetCount = - 1\<rparr>"
    by (simp add: ex_heap_start_def)
  have b: "child \<lparr>root_counter = Some 20, child = None, spinlock = 0, offsets = None,
                   offsetCount = - 1\<rparr> = None"
    by simp
  have c: "distinct [30, 31, 32 :: addr]" by simp
  have d: "objDatas ex_heap_start 50 = Some (ex_objData (Some 1000))"
    "objDatas ex_heap_start 51 = Some (ex_objData (Some 1001))"
    "objDatas ex_heap_start 52 = Some (ex_objData (Some 1002))"
    by (simp_all add: ex_heap_start_def)
  have e: "klassOop (ex_objData (Some 1000)) \<noteq> klassOop (ex_objData (Some 1002))"
    "klassOop (ex_objData (Some 1001)) \<noteq> klassOop (ex_objData (Some 1002))"
    by (simp_all add: ex_objData_def)
  have o: "klassOop (ex_objData (Some 1002)) = Some 1002" by (simp add: ex_objData_def)
  from findChildClass_promotes [OF a b c d e, of 21 22 23]
  show ?thesis using a c d e unfolding o by blast
qed

section \<open>The cleared state under the operations of a container\<close>









lemma class_cleared_allocated: "class_cleared h p \<Longrightarrow> classCounters h p \<noteq> None"
  by (auto simp: class_cleared_def split: option.splits)













end
